theory Spec2Isabelle
  imports Complex_Main
begin

section \<open>JavaScript strings and numbers\<close>

text \<open>
  A JavaScript string is a sequence of UTF-16 code units.  A code unit is modelled as a
  natural number and a string as a list of them, so that every receipt text (also one with
  characters beyond Latin-1) is a value of the model.  \<open>js\<close> turns an ASCII literal of the
  theory into such a string.
\<close>

type_synonym jschar = nat
type_synonym jsstring = "nat list"

definition js :: "string \<Rightarrow> jsstring" where
  "js s = map of_char s"

text \<open>The characters that the source names.\<close>

definition COMMA :: jschar where "COMMA = 44"
definition DOT :: jschar where "DOT = 46"
definition SPACE :: jschar where "SPACE = 32"

text \<open>\<open>\d\<close> in a regular expression without the \<open>u\<close> flag: the ASCII digits only.\<close>

definition isDigit :: "jschar \<Rightarrow> bool" where
  "isDigit c = (48 \<le> c \<and> c \<le> 57)"

text \<open>
  The characters removed by \<open>String.prototype.trim\<close> and matched by \<open>\s\<close>: ECMAScript's
  WhiteSpace (TAB, VT, FF, SP, NBSP, ZWNBSP and the category Zs) and LineTerminator
  (LF, CR, LS, PS).
\<close>

definition isWhiteSpace :: "jschar \<Rightarrow> bool" where
  "isWhiteSpace c =
     (c = 9 \<or> c = 10 \<or> c = 11 \<or> c = 12 \<or> c = 13 \<or> c = 32 \<or> c = 160 \<or> c = 5760
      \<or> (8192 \<le> c \<and> c \<le> 8202) \<or> c = 8232 \<or> c = 8233 \<or> c = 8239 \<or> c = 8287
      \<or> c = 12288 \<or> c = 65279)"

definition trim :: "jsstring \<Rightarrow> jsstring" where
  "trim s = rev (dropWhile isWhiteSpace (rev (dropWhile isWhiteSpace s)))"

text \<open>\<open>s.includes(c)\<close> for a one-character needle.\<close>

definition includes_js :: "jsstring \<Rightarrow> jschar \<Rightarrow> bool" where
  "includes_js s c = (c \<in> set s)"

text \<open>\<open>s.lastIndexOf(c)\<close> for a one-character needle: the last index of \<open>c\<close>, or \<open>-1\<close>.\<close>

primrec lastIndexFrom :: "jschar \<Rightarrow> jsstring \<Rightarrow> nat \<Rightarrow> int \<Rightarrow> int" where
  "lastIndexFrom c [] i found = found"
| "lastIndexFrom c (x # xs) i found =
     lastIndexFrom c xs (i + 1) (if x = c then int i else found)"

definition lastIndexOf :: "jsstring \<Rightarrow> jschar \<Rightarrow> int" where
  "lastIndexOf s c = lastIndexFrom c s 0 (- 1)"

text \<open>
  \<open>s.replace(c, d)\<close> with a string pattern replaces the first occurrence only;
  \<open>s.replace(/c/g, '')\<close> removes every occurrence.
\<close>

primrec replaceFirst :: "jschar \<Rightarrow> jschar \<Rightarrow> jsstring \<Rightarrow> jsstring" where
  "replaceFirst c d [] = []"
| "replaceFirst c d (x # xs) = (if x = c then d # xs else x # replaceFirst c d xs)"

definition removeAll_js :: "jschar \<Rightarrow> jsstring \<Rightarrow> jsstring" where
  "removeAll_js c s = filter (\<lambda>x. x \<noteq> c) s"

text \<open>\<open>s.substring(i)\<close> for an index \<open>i\<close> that is not negative.\<close>

definition substringFrom :: "jsstring \<Rightarrow> int \<Rightarrow> jsstring" where
  "substringFrom s i = drop (nat i) s"

subsection \<open>Numbers\<close>

text \<open>
  A JavaScript number is an IEEE 754 binary64 value.  The parser never produces a negative
  number (no sign survives to \<open>parseFloat\<close>), so the model has NaN, the finite values as the
  rationals they denote, and positive infinity.  \<open>numberValue q\<close> is the Number value for the
  mathematical value \<open>q \<ge> 0\<close>: \<open>q\<close> rounded to the nearest binary64 value, ties to even, with
  gradual underflow below \<open>2^-1022\<close> and overflow to infinity from \<open>2^1024\<close>.  It is also the
  value of the numeric literal that spells \<open>q\<close> in the source and in its tests.  (For a
  literal of more than 20 significant digits ECMAScript lets an engine round at the 20th
  digit first; the model rounds the exact value, as the common engines do.)
\<close>

datatype number = NaN | Num rat | PosInf

text \<open>The binary exponent \<open>e\<close> with \<open>2^e \<le> q < 2^(e+1)\<close>, exact for \<open>|e| < n\<close>.\<close>

fun binExp :: "nat \<Rightarrow> rat \<Rightarrow> int" where
  "binExp n q =
     (if n = 0 then 0
      else if 2 \<le> q then binExp (n - 1) (q / 2) + 1
      else if q < 1 then binExp (n - 1) (q * 2) - 1
      else 0)"

declare binExp.simps [simp del]

definition pow2 :: "int \<Rightarrow> rat" where
  "pow2 e = (if 0 \<le> e then 2 ^ nat e else 1 / 2 ^ nat (- e))"

definition roundHalfEven :: "rat \<Rightarrow> int" where
  "roundHalfEven x =
     (let f = \<lfloor>x\<rfloor>; d = x - of_int f
      in if d < 1 / 2 then f else if 1 / 2 < d then f + 1 else if even f then f else f + 1)"

definition numberValue :: "rat \<Rightarrow> number" where
  "numberValue q =
     (if q \<le> 0 then Num 0
      else let e = max (binExp 1100 q) (- 1022);
               u = pow2 (e - 52);
               v = of_int (roundHalfEven (q / u)) * u
           in if 2 ^ 1024 \<le> v then PosInf else Num v)"

text \<open>Truthiness of a value of type \<open>number | undefined\<close>: undefined, NaN and 0 are falsy.\<close>

fun truthy :: "number option \<Rightarrow> bool" where
  "truthy None = False"
| "truthy (Some NaN) = False"
| "truthy (Some (Num q)) = (q \<noteq> 0)"
| "truthy (Some PosInf) = True"

text \<open>The comparisons \<open>a < b\<close> and \<open>a > b\<close> on numbers: false when either side is NaN.\<close>

fun numLess :: "number \<Rightarrow> number \<Rightarrow> bool" where
  "numLess (Num a) (Num b) = (a < b)"
| "numLess (Num a) PosInf = True"
| "numLess _ _ = False"

definition numGreater :: "number \<Rightarrow> number \<Rightarrow> bool" where
  "numGreater a b = numLess b a"

fun nonNegative :: "number \<Rightarrow> bool" where
  "nonNegative NaN = False"
| "nonNegative (Num q) = (0 \<le> q)"
| "nonNegative PosInf = True"

subsection \<open>parseFloat\<close>

text \<open>
  \<open>parseFloat\<close> skips leading white space and reads the longest prefix that is a decimal
  literal: digits, optionally a dot and more digits, or a dot and digits.  The result is NaN
  when there is no such prefix.  Signs, exponents and the word Infinity are left out of the
  model: \<open>parseNorwegianCurrency\<close> passes a string of digits and dots only
  (lemma \<open>normalized_alphabet\<close> below).
\<close>

definition digitsValue :: "jsstring \<Rightarrow> nat" where
  "digitsValue ds = foldl (\<lambda>a c. 10 * a + (c - 48)) 0 ds"

definition mathValue :: "jsstring \<Rightarrow> jsstring \<Rightarrow> rat" where
  "mathValue ip fp = of_nat (digitsValue ip) + of_nat (digitsValue fp) / 10 ^ length fp"

definition parseFloat :: "jsstring \<Rightarrow> number" where
  "parseFloat str =
     (let s = dropWhile isWhiteSpace str;
          ip = takeWhile isDigit s;
          r = dropWhile isDigit s;
          fp = (case r of [] \<Rightarrow> [] | c # r' \<Rightarrow> if c = DOT then takeWhile isDigit r' else [])
      in if ip = [] \<and> fp = [] then NaN else numberValue (mathValue ip fp))"

section \<open>parseNorwegianCurrency\<close>

text \<open>The separator resolution of \<open>parseNorwegianCurrency\<close>, up to the final stripping.\<close>

definition resolveSeparators :: "jsstring \<Rightarrow> jsstring" where
  "resolveSeparators cleaned =
     (let hasComma = includes_js cleaned COMMA;
          hasDot = includes_js cleaned DOT;
          lastCommaPos = lastIndexOf cleaned COMMA;
          lastDotPos = lastIndexOf cleaned DOT
      in if hasComma \<and> hasDot then
           (if lastDotPos < lastCommaPos
            then replaceFirst COMMA DOT (removeAll_js DOT cleaned)
            else removeAll_js COMMA cleaned)
         else if hasComma \<and> \<not> hasDot then
           (let afterComma = substringFrom cleaned (lastCommaPos + 1)
            in if length afterComma = 2 \<and> list_all isDigit afterComma
               then replaceFirst COMMA DOT cleaned
               else removeAll_js COMMA cleaned)
         else if hasDot \<and> \<not> hasComma then
           (let afterDot = substringFrom cleaned (lastDotPos + 1)
            in if length afterDot = 2 \<and> list_all isDigit afterDot
               then cleaned
               else removeAll_js DOT cleaned)
         else cleaned)"

text \<open>\<open>normalized.replace(/[^\d.]/g, '')\<close>\<close>

definition stripNonNumeric :: "jsstring \<Rightarrow> jsstring" where
  "stripNonNumeric s = filter (\<lambda>c. isDigit c \<or> c = DOT) s"

definition parseNorwegianCurrency :: "jsstring \<Rightarrow> number option" where
  "parseNorwegianCurrency moneyStr =
     (if moneyStr = [] then None
      else let normalized = stripNonNumeric (resolveSeparators (trim moneyStr));
               result = parseFloat normalized
           in if result = NaN then None else Some result)"

section \<open>Regular expressions\<close>

text \<open>
  The regular expressions of the source, as a datatype, with the backtracking semantics of
  ECMAScript (section RegExp Pattern Semantics): a matcher takes the state reached so far
  and a continuation, and an alternative or a greedy quantifier tries its first choice with
  the rest of the pattern before it falls back to the next one.  A state has the character
  before the current position (for \<open>\b\<close> and \<open>^\<close>), the text from the current position
  on, and the captures made so far, the latest first.
\<close>

record mstate =
  prevc :: "jschar option"
  rest :: jsstring
  caps :: "(nat \<times> jsstring) list"

datatype regex =
    Atom "jschar \<Rightarrow> bool"
  | Eps
  | Seq regex regex
  | Alt regex regex
  | Star regex
  | Opt regex
  | Group nat regex
  | WordB
  | Bol

text \<open>\<open>\w\<close> without the \<open>u\<close> flag: the ASCII letters, the digits and the underscore.\<close>

definition isWordChar :: "jschar \<Rightarrow> bool" where
  "isWordChar c = ((97 \<le> c \<and> c \<le> 122) \<or> (65 \<le> c \<and> c \<le> 90) \<or> isDigit c \<or> c = 95)"

definition atWordBoundary :: "mstate \<Rightarrow> bool" where
  "atWordBoundary st =
     (let a = (case prevc st of None \<Rightarrow> False | Some c \<Rightarrow> isWordChar c);
          b = (case rest st of [] \<Rightarrow> False | c # _ \<Rightarrow> isWordChar c)
      in a \<noteq> b)"

text \<open>
  \<open>Star\<close> and \<open>Opt\<close> are the greedy quantifiers \<open>*\<close> and \<open>?\<close>; as in ECMAScript's
  RepeatMatcher, an iteration that consumes nothing is rejected.  \<open>Bol\<close> is \<open>^\<close> without
  the \<open>m\<close> flag.  No pattern of the source has a group inside a quantifier, so the reset of
  captures at each iteration has nothing to do.
\<close>

function m :: "regex \<Rightarrow> mstate \<Rightarrow> (mstate \<Rightarrow> 'a option) \<Rightarrow> 'a option" where
  "m (Atom P) st k =
     (case rest st of [] \<Rightarrow> None
      | c # cs \<Rightarrow> if P c then k (st\<lparr>prevc := Some c, rest := cs\<rparr>) else None)"
| "m Eps st k = k st"
| "m (Seq a b) st k = m a st (\<lambda>st'. m b st' k)"
| "m (Alt a b) st k = (case m a st k of Some x \<Rightarrow> Some x | None \<Rightarrow> m b st k)"
| "m (Star a) st k =
     (case m a st (\<lambda>st'. if length (rest st') < length (rest st) then m (Star a) st' k else None)
      of Some x \<Rightarrow> Some x | None \<Rightarrow> k st)"
| "m (Opt a) st k =
     (case m a st (\<lambda>st'. if length (rest st') < length (rest st) then k st' else None)
      of Some x \<Rightarrow> Some x | None \<Rightarrow> k st)"
| "m (Group n a) st k =
     m a st (\<lambda>st'. k (st'\<lparr>caps := (n, take (length (rest st) - length (rest st')) (rest st)) # caps st'\<rparr>))"
| "m WordB st k = (if atWordBoundary st then k st else None)"
| "m Bol st k = (if prevc st = None then k st else None)"
  by pat_completeness auto
termination
  by (relation "inv_image (measure size <*lex*> measure (\<lambda>st. length (rest st))) (\<lambda>(r, st, k). (r, st))")
     auto

text \<open>
  The result of a successful match: \<open>match[0]\<close>, the captures, and the state at the end
  of the match, from which \<open>exec\<close> on a global pattern goes on (\<open>lastIndex\<close>).
\<close>

record jsmatch =
  matched :: jsstring
  captures :: "(nat \<times> jsstring) list"
  endState :: mstate

definition matchHere :: "regex \<Rightarrow> jschar option \<Rightarrow> jsstring \<Rightarrow> jsmatch option" where
  "matchHere r p s =
     m r \<lparr>prevc = p, rest = s, caps = []\<rparr>
       (\<lambda>st. Some \<lparr>matched = take (length s - length (rest st)) s, captures = caps st, endState = st\<rparr>)"

text \<open>
  The search of \<open>exec\<close>, \<open>match\<close> and \<open>test\<close>: the first position, from the current one to
  the end of the text, at which the pattern matches.
\<close>

fun searchFrom :: "regex \<Rightarrow> jschar option \<Rightarrow> jsstring \<Rightarrow> jsmatch option" where
  "searchFrom r p [] = matchHere r p []"
| "searchFrom r p (c # cs) =
     (case matchHere r p (c # cs) of Some mt \<Rightarrow> Some mt | None \<Rightarrow> searchFrom r (Some c) cs)"

text \<open>\<open>text.match(r)\<close> for a pattern without the \<open>g\<close> flag, and \<open>r.test(text)\<close>.\<close>

definition match_js :: "jsstring \<Rightarrow> regex \<Rightarrow> jsmatch option" where
  "match_js text r = searchFrom r None text"

definition test_js :: "regex \<Rightarrow> jsstring \<Rightarrow> bool" where
  "test_js r text = (searchFrom r None text \<noteq> None)"

text \<open>\<open>match[n]\<close> for \<open>n \<ge> 1\<close>: undefined when the group took no part in the match.\<close>

definition group :: "jsmatch \<Rightarrow> nat \<Rightarrow> jsstring option" where
  "group mt n = map_of (captures mt) n"

subsection \<open>Building patterns\<close>

definition chr :: "jschar \<Rightarrow> regex" where
  "chr c = Atom (\<lambda>x. x = c)"

text \<open>
  A letter under the \<open>i\<close> flag matches the code units with the same canonical form.  Without
  the \<open>u\<close> flag that is the upper case of the code unit, except that no code unit beyond
  ASCII is mapped into ASCII.  The patterns of the source have ASCII letters and two
  Latin-1 letters only (a with ring, code unit 229, and o with stroke, 248), whose
  canonical forms are reached from their two cases and from no other code unit;
  \<open>caseFold\<close> is the canonical form on ASCII and on the code units from 224 to 254, and
  the identity elsewhere, which decides the same matches for the characters of these
  patterns.
\<close>

definition caseFold :: "jschar \<Rightarrow> jschar" where
  "caseFold c =
     (if (97 \<le> c \<and> c \<le> 122) \<or> (224 \<le> c \<and> c \<le> 254 \<and> c \<noteq> 247) then c - 32 else c)"

definition chrI :: "jschar \<Rightarrow> regex" where
  "chrI c = Atom (\<lambda>x. caseFold x = caseFold c)"

definition digit :: regex where
  "digit = Atom isDigit"

definition space :: regex where
  "space = Atom isWhiteSpace"

definition oneOf :: "jschar list \<Rightarrow> regex" where
  "oneOf cs = Atom (\<lambda>x. x \<in> set cs)"

fun seqs :: "regex list \<Rightarrow> regex" where
  "seqs [] = Eps"
| "seqs [r] = r"
| "seqs (r # rs) = Seq r (seqs rs)"

fun alts :: "regex list \<Rightarrow> regex" where
  "alts [] = Eps"
| "alts [r] = r"
| "alts (r # rs) = Alt r (alts rs)"

definition strI :: "jsstring \<Rightarrow> regex" where
  "strI s = seqs (map chrI s)"

definition plus :: "regex \<Rightarrow> regex" where
  "plus r = Seq r (Star r)"

text \<open>\<open>r{2}\<close>, \<open>r{3}\<close>, \<open>r{4}\<close>, \<open>r{1,4}\<close> and \<open>r{3,}\<close>, for an \<open>r\<close> that consumes a character.\<close>

definition rep2 :: "regex \<Rightarrow> regex" where
  "rep2 r = Seq r r"

definition rep3 :: "regex \<Rightarrow> regex" where
  "rep3 r = Seq r (Seq r r)"

definition rep4 :: "regex \<Rightarrow> regex" where
  "rep4 r = Seq r (Seq r (Seq r r))"

definition rep1to4 :: "regex \<Rightarrow> regex" where
  "rep1to4 r = Seq r (Opt (Seq r (Opt (Seq r (Opt r)))))"

definition rep3up :: "regex \<Rightarrow> regex" where
  "rep3up r = Seq r (Seq r (Seq r (Star r)))"

section \<open>extractStructuredFields\<close>

record fields =
  merchant :: "jsstring option"
  vatAmount :: "number option"
  total :: "number option"
  currency :: "jsstring option"

subsection \<open>Lines\<close>

definition LF :: jschar where "LF = 10"
definition CR :: jschar where "CR = 13"

text \<open>
  \<open>text.split(/\r?\n/)\<close>: the text is cut at every line feed, and a carriage return just
  before the line feed goes with it.  The text without any line feed is one line.
\<close>

fun consHead :: "jschar \<Rightarrow> jsstring list \<Rightarrow> jsstring list" where
  "consHead c [] = [[c]]"
| "consHead c (l # ls) = (c # l) # ls"

fun splitLines :: "jsstring \<Rightarrow> jsstring list" where
  "splitLines [] = [[]]"
| "splitLines [c] = (if c = LF then [[], []] else [[c]])"
| "splitLines (c # d # cs) =
     (if c = LF then [] # splitLines (d # cs)
      else if c = CR \<and> d = LF then [] # splitLines cs
      else consHead c (splitLines (d # cs)))"

text \<open>\<open>text.split(/\r?\n/).map(l => l.trim()).filter(Boolean)\<close>\<close>

definition textLines :: "jsstring \<Rightarrow> jsstring list" where
  "textLines text = filter (\<lambda>l. l \<noteq> []) (map trim (splitLines text))"

text \<open>\<open>s.slice(0, 60)\<close>\<close>

definition slice60 :: "jsstring \<Rightarrow> jsstring" where
  "slice60 s = take 60 s"

subsection \<open>Merchant\<close>

definition storePatterns :: "regex list" where
  "storePatterns =
     [seqs [strI (js ''BILTEMA''), Star space, strI (js ''NORGE'')],
      strI (js ''BILTEMA''),
      strI (js ''ANTONSPORT''),
      seqs [strI (js ''COOP''), Star space, strI (js ''PRIX'')],
      seqs [strI (js ''REMA''), Star space, strI (js ''1000'')],
      seqs [strI (js ''ICA''), Star space, strI (js ''SUPERMARKET'')],
      strI (js ''KIWI''),
      strI (js ''BUNNPRIS''),
      strI (js ''MENY''),
      strI (js ''EUROPRIS''),
      strI (js ''PLANTASJEN''),
      strI (js ''SPORTSHOLDING'')]"

text \<open>\<open>s.replace(/\s+/g, ' ')\<close>: every maximal run of white space becomes one space.\<close>

function collapseWhiteSpace :: "jsstring \<Rightarrow> jsstring" where
  "collapseWhiteSpace [] = []"
| "collapseWhiteSpace (c # cs) =
     (if isWhiteSpace c then SPACE # collapseWhiteSpace (dropWhile isWhiteSpace cs)
      else c # collapseWhiteSpace cs)"
  by pat_completeness auto
termination
  by (relation "measure length") (auto simp: length_dropWhile_le less_Suc_eq_le)

text \<open>The loop over \<open>storePatterns\<close>: the first pattern that matches the text decides.\<close>

fun storeLoop :: "regex list \<Rightarrow> jsstring \<Rightarrow> jsstring option" where
  "storeLoop [] text = None"
| "storeLoop (pattern # ps) text =
     (case match_js text pattern of
        None \<Rightarrow> storeLoop ps text
      | Some mt \<Rightarrow>
          (let foundMerchant = trim (collapseWhiteSpace (matched mt))
           in if test_js (strI (js ''SPORTSHOLDING'')) foundMerchant
              then (case match_js text (strI (js ''ANTONSPORT'')) of
                      Some antonsportMatch \<Rightarrow> Some (matched antonsportMatch)
                    | None \<Rightarrow> Some foundMerchant)
              else Some foundMerchant))"

text \<open>\<open>/(?:org\.?\s*nr|bus\.?\s*reg\.?\s*no)/i\<close>\<close>

definition orgPattern :: regex where
  "orgPattern =
     Alt (seqs [strI (js ''org''), Opt (chr DOT), Star space, strI (js ''nr'')])
         (seqs [strI (js ''bus''), Opt (chr DOT), Star space, strI (js ''reg''), Opt (chr DOT),
                Star space, strI (js ''no'')])"

text \<open>\<open>/^\d+\s|\d{4}\s/\<close>\<close>

definition addressPattern :: regex where
  "addressPattern = Alt (seqs [Bol, plus digit, space]) (seqs [rep4 digit, space])"

text \<open>\<open>/(telefon|phone)/i\<close>\<close>

definition phonePattern :: regex where
  "phonePattern = Group 1 (Alt (strI (js ''telefon'')) (strI (js ''phone'')))"

text \<open>
  At least three letters in a row, where a letter is one of \<open>a-z\<close>, \<open>A-Z\<close> and the six
  Norwegian letters of the source's character class, here by their code units
  (230, 248, 229 and 198, 216, 197).
\<close>

definition isNameLetter :: "jschar \<Rightarrow> bool" where
  "isNameLetter c =
     ((97 \<le> c \<and> c \<le> 122) \<or> (65 \<le> c \<and> c \<le> 90)
      \<or> c = 230 \<or> c = 248 \<or> c = 229 \<or> c = 198 \<or> c = 216 \<or> c = 197)"

definition namePattern :: regex where
  "namePattern = rep3up (Atom isNameLetter)"

text \<open>\<open>lines.findIndex(pred)\<close>: the first index at which \<open>pred\<close> holds, or \<open>-1\<close>.\<close>

primrec findIndexFrom :: "('a \<Rightarrow> bool) \<Rightarrow> 'a list \<Rightarrow> nat \<Rightarrow> int" where
  "findIndexFrom pred [] i = - 1"
| "findIndexFrom pred (x # xs) i = (if pred x then int i else findIndexFrom pred xs (i + 1))"

definition findIndex :: "'a list \<Rightarrow> ('a \<Rightarrow> bool) \<Rightarrow> int" where
  "findIndex xs pred = findIndexFrom pred xs 0"

text \<open>\<open>lines[i]\<close>: undefined out of range.\<close>

definition lineAt :: "jsstring list \<Rightarrow> int \<Rightarrow> jsstring option" where
  "lineAt ls i = (if 0 \<le> i \<and> i < int (length ls) then Some (ls ! nat i) else None)"

definition looksLikeName :: "jsstring \<Rightarrow> bool" where
  "looksLikeName line =
     (line \<noteq> [] \<and> \<not> test_js addressPattern line \<and> \<not> test_js phonePattern line
      \<and> 2 < length line \<and> test_js namePattern line)"

text \<open>
  The loop \<open>for (let i = Math.max(0, orgIdx - 3); i < orgIdx; i++)\<close>; it stops at the
  first line that looks like a name, and leaves the merchant as it was when there is none.
\<close>

function orgLoop :: "jsstring list \<Rightarrow> int \<Rightarrow> int \<Rightarrow> jsstring option \<Rightarrow> jsstring option" where
  "orgLoop ls i orgIdx merchant0 =
     (if i < orgIdx then
        (case lineAt ls i of
           None \<Rightarrow> orgLoop ls (i + 1) orgIdx merchant0
         | Some line \<Rightarrow>
             if looksLikeName line then Some (trim (slice60 line))
             else orgLoop ls (i + 1) orgIdx merchant0)
      else merchant0)"
  by pat_completeness auto
termination
  by (relation "measure (\<lambda>(ls, i, orgIdx, merchant0). nat (orgIdx - i))") auto

declare orgLoop.simps [simp del]

definition orgMerchant :: "jsstring list \<Rightarrow> jsstring option \<Rightarrow> jsstring option" where
  "orgMerchant ls merchant0 =
     (let orgIdx = findIndex ls (test_js orgPattern)
      in if 0 \<le> orgIdx then orgLoop ls (max 0 (orgIdx - 3)) orgIdx merchant0 else merchant0)"

definition detectMerchant :: "jsstring \<Rightarrow> jsstring option" where
  "detectMerchant text =
     (let ls = textLines text;
          merchant0 = (case ls of [] \<Rightarrow> None | l # _ \<Rightarrow> Some (slice60 l))
      in case storeLoop storePatterns text of
           Some found \<Rightarrow> Some found
         | None \<Rightarrow> orgMerchant ls merchant0)"

subsection \<open>Currency\<close>

text \<open>\<open>/\b(EUR|USD|GBP|SEK|DKK|NOK)\b/i\<close>\<close>

definition currencyCodes :: "jsstring list" where
  "currencyCodes = [js ''EUR'', js ''USD'', js ''GBP'', js ''SEK'', js ''DKK'', js ''NOK'']"

definition currencyPattern :: regex where
  "currencyPattern = seqs [WordB, Group 1 (alts (map strI currencyCodes)), WordB]"

text \<open>
  \<open>s.toUpperCase()\<close> on ASCII; the source applies it to the capture of \<open>currencyPattern\<close>
  only, which consists of ASCII letters (lemma \<open>currency_capture_letters\<close> below).
\<close>

definition toUpperCase :: "jsstring \<Rightarrow> jsstring" where
  "toUpperCase s = map (\<lambda>c. if 97 \<le> c \<and> c \<le> 122 then c - 32 else c) s"

definition detectCurrency :: "jsstring \<Rightarrow> jsstring" where
  "detectCurrency text =
     (case match_js text currencyPattern of
        None \<Rightarrow> js ''NOK''
      | Some currencyMatch \<Rightarrow>
          (case group currencyMatch 1 of None \<Rightarrow> js ''NOK'' | Some c \<Rightarrow> toUpperCase c))"

subsection \<open>VAT\<close>

definition sep :: regex where
  "sep = oneOf [DOT, COMMA]"

definition sepOrSpace :: regex where
  "sepOrSpace = Atom (\<lambda>c. isWhiteSpace c \<or> c = DOT \<or> c = COMMA)"

text \<open>\<open>[0-9]{1,4}(?:[.,]\s*[0-9]{3})*[.,][0-9]{2}\<close>\<close>

definition amountLoose :: regex where
  "amountLoose =
     seqs [rep1to4 digit, Star (seqs [sep, Star space, rep3 digit]), sep, rep2 digit]"

text \<open>\<open>[0-9]{1,4}(?:[.,][0-9]{3})*[.,][0-9]{2}\<close>\<close>

definition amountStrict :: regex where
  "amountStrict = seqs [rep1to4 digit, Star (seqs [sep, rep3 digit]), sep, rep2 digit]"

definition mvaOrVat :: regex where
  "mvaOrVat = Alt (strI (js ''MVA'')) (strI (js ''VAT''))"

text \<open>The first of the VAT patterns, for a line such as \<open>1599.20 25% 399.80 1999.00\<close>.\<close>

definition breakdownPattern :: regex where
  "breakdownPattern =
     seqs [Group 1 amountLoose, Star space, strI (js ''25%''), Star space, Group 2 amountLoose]"

definition vatPatterns :: "regex list" where
  "vatPatterns =
     [breakdownPattern,
      seqs [strI (js ''herav''), plus space, strI (js ''mva''), plus space, Group 1 amountStrict],
      seqs [mvaOrVat, Star space, Opt (seqs [strI (js ''25''), Opt (chrI 37)]), Star space,
            Group 1 amountStrict],
      seqs [strI (js ''MVA''), plus space, Group 1 amountStrict],
      seqs [Group 1 amountStrict, Star space, mvaOrVat]]"

text \<open>\<open>vatMatch[2] || vatMatch[1]\<close>: the second capture unless it is undefined or empty.\<close>

definition vatCapture :: "jsmatch \<Rightarrow> jsstring option" where
  "vatCapture vatMatch =
     (case group vatMatch 2 of
        None \<Rightarrow> group vatMatch 1
      | Some s \<Rightarrow> if s = [] then group vatMatch 1 else Some s)"

text \<open>A call of \<open>parseNorwegianCurrency\<close> on a capture; undefined is falsy as the empty string is.\<close>

definition parseCapture :: "jsstring option \<Rightarrow> number option" where
  "parseCapture c = (case c of None \<Rightarrow> None | Some s \<Rightarrow> parseNorwegianCurrency s)"

text \<open>
  The loop over \<open>vatMatches\<close>.  The variable \<open>vatAmount\<close> is assigned before it is tested, so
  it keeps the value of the last match when no value is truthy.
\<close>

fun vatLoop :: "jsmatch option list \<Rightarrow> number option \<Rightarrow> number option" where
  "vatLoop [] vat = vat"
| "vatLoop (None # ms) vat = vatLoop ms vat"
| "vatLoop (Some vatMatch # ms) vat =
     (let vat' = parseCapture (vatCapture vatMatch)
      in if truthy vat' then vat' else vatLoop ms vat')"

definition detectVat :: "jsstring \<Rightarrow> number option" where
  "detectVat text = vatLoop (map (match_js text) vatPatterns) None"

subsection \<open>Total\<close>

text \<open>\<open>[0-9]{1,4}(?:[\s.,][0-9]{3})*[.,][0-9]{2}\<close>\<close>

definition amountGrouped :: regex where
  "amountGrouped = seqs [rep1to4 digit, Star (seqs [sepOrSpace, rep3 digit]), sep, rep2 digit]"

text \<open>\<open>[0-9]{1,4}(?:[\s.,][0-9]{3})*[.,][0-9]{2}|[0-9]+[.,][0-9]{2}\<close>\<close>

definition amountAny :: regex where
  "amountAny = Alt amountGrouped (seqs [plus digit, sep, rep2 digit])"

definition totalKeyword :: regex where
  "totalKeyword =
     alts [strI (js ''totalt''), strI (js ''total''), strI (js ''sum''),
           seqs [chrI 229, Star space, strI (js ''betale'')],
           seqs [strI (js ''bel''), chrI 248, chrI 112],
           seqs [strI (js ''purchase''), Star space, strI (js ''nok'')]]"

definition totalPatterns :: "regex list" where
  "totalPatterns =
     [seqs [totalKeyword, Star space, Opt (oneOf [58, 61]), Star space, Group 1 amountAny],
      seqs [strI (js ''bank:''), Star space, Group 1 amountGrouped],
      seqs [Group 1 amountGrouped, Star space,
            alts [strI (js ''totalt''), strI (js ''total''), strI (js ''sum'')]]]"

definition moneyRegex :: regex where
  "moneyRegex = Group 1 amountAny"

definition MILLION :: number where
  "MILLION = Num 1000000"

text \<open>\<open>total || 0\<close>\<close>

definition orZero :: "number option \<Rightarrow> number" where
  "orZero t = (case t of Some n \<Rightarrow> if truthy t then n else Num 0 | None \<Rightarrow> Num 0)"

text \<open>\<open>amount && amount > bound && amount < 1_000_000\<close>\<close>

definition accepts :: "number option \<Rightarrow> number \<Rightarrow> bool" where
  "accepts amount bound =
     (case amount of
        None \<Rightarrow> False
      | Some a \<Rightarrow> truthy amount \<and> numGreater a bound \<and> numLess a MILLION)"

text \<open>
  The loop \<open>while ((match = pattern.exec(text)))\<close> on a global pattern, from the state that
  \<open>lastIndex\<close> stands for.  \<open>exec\<close> sets \<open>lastIndex\<close> to the end of the match; after an
  empty match at \<open>lastIndex\<close> itself the next call would find the same match again, and
  the loop would never end: that is the result \<open>None\<close>.
\<close>

function execLoop ::
  "regex \<Rightarrow> (jsmatch \<Rightarrow> 's \<Rightarrow> 's) \<Rightarrow> jschar option \<Rightarrow> jsstring \<Rightarrow> 's \<Rightarrow> 's option" where
  "execLoop pattern body p s acc =
     (case searchFrom pattern p s of
        None \<Rightarrow> Some acc
      | Some mt \<Rightarrow>
          if length (rest (endState mt)) < length s
          then execLoop pattern body (prevc (endState mt)) (rest (endState mt)) (body mt acc)
          else None)"
  by pat_completeness auto
termination
  by (relation "measure (\<lambda>(pattern, body, p, s, acc). length s)") auto

declare execLoop.simps [simp del]

text \<open>The body of the loop over the matches of a total pattern.\<close>

definition totalStep :: "jsmatch \<Rightarrow> number option \<Rightarrow> number option" where
  "totalStep mt total0 =
     (let amount = parseCapture (group mt 1)
      in if accepts amount (orZero total0) then amount else total0)"

fun totalLoop :: "regex list \<Rightarrow> jsstring \<Rightarrow> number option \<Rightarrow> number option option" where
  "totalLoop [] text total0 = Some total0"
| "totalLoop (pattern # ps) text total0 =
     (case execLoop pattern totalStep None text total0 of
        None \<Rightarrow> None
      | Some total1 \<Rightarrow> totalLoop ps text total1)"

text \<open>The body of the loop over the matches of \<open>moneyRegex\<close>, on the variable \<open>max\<close>.\<close>

definition maxStep :: "jsmatch \<Rightarrow> number \<Rightarrow> number" where
  "maxStep mt mx =
     (let amount = parseCapture (group mt 1)
      in if accepts amount mx then (case amount of Some a \<Rightarrow> a | None \<Rightarrow> mx) else mx)"

definition fallbackTotal :: "jsstring \<Rightarrow> number option option" where
  "fallbackTotal text =
     (case execLoop moneyRegex maxStep None text (Num 0) of
        None \<Rightarrow> None
      | Some mx \<Rightarrow> Some (if numGreater mx (Num 0) then Some mx else None))"

definition detectTotal :: "jsstring \<Rightarrow> number option option" where
  "detectTotal text =
     (case totalLoop totalPatterns text None of
        None \<Rightarrow> None
      | Some total1 \<Rightarrow> if \<not> truthy total1 then fallbackTotal text else Some total1)"

text \<open>
  The function itself.  Its result is \<open>None\<close> when a loop over the matches of a pattern
  does not end, and the returned record otherwise.
\<close>

definition extractStructuredFields :: "jsstring \<Rightarrow> fields option" where
  "extractStructuredFields text =
     (case detectTotal text of
        None \<Rightarrow> None
      | Some t \<Rightarrow>
          Some \<lparr>merchant = detectMerchant text, vatAmount = detectVat text, total = t,
                currency = Some (detectCurrency text)\<rparr>)"

section \<open>Matches as a relation, and what the claims speak of\<close>

text \<open>
  \<open>reach r st st'\<close>: the pattern \<open>r\<close> can lead from the state \<open>st\<close> to the state \<open>st'\<close>,
  by some choice at every alternative and quantifier.  The matcher \<open>m\<close> returns the result
  of the first such choice, in its order of priority, that the continuation accepts.
\<close>

inductive reach :: "regex \<Rightarrow> mstate \<Rightarrow> mstate \<Rightarrow> bool" where
  reach_Atom: "rest st = c # cs \<Longrightarrow> P c \<Longrightarrow> reach (Atom P) st (st\<lparr>prevc := Some c, rest := cs\<rparr>)"
| reach_Eps: "reach Eps st st"
| reach_Seq: "reach a st st1 \<Longrightarrow> reach b st1 st2 \<Longrightarrow> reach (Seq a b) st st2"
| reach_AltL: "reach a st st' \<Longrightarrow> reach (Alt a b) st st'"
| reach_AltR: "reach b st st' \<Longrightarrow> reach (Alt a b) st st'"
| reach_Star0: "reach (Star a) st st"
| reach_StarS: "reach a st st1 \<Longrightarrow> length (rest st1) < length (rest st) \<Longrightarrow> reach (Star a) st1 st2
     \<Longrightarrow> reach (Star a) st st2"
| reach_Opt0: "reach (Opt a) st st"
| reach_OptS: "reach a st st1 \<Longrightarrow> length (rest st1) < length (rest st) \<Longrightarrow> reach (Opt a) st st1"
| reach_Group: "reach a st st1 \<Longrightarrow>
     reach (Group n a) st
       (st1\<lparr>caps := (n, take (length (rest st) - length (rest st1)) (rest st)) # caps st1\<rparr>)"
| reach_WordB: "atWordBoundary st \<Longrightarrow> reach WordB st st"
| reach_Bol: "prevc st = None \<Longrightarrow> reach Bol st st"

text \<open>The words that a pattern can consume, whatever is around them.\<close>

inductive matchesWord :: "regex \<Rightarrow> jsstring \<Rightarrow> bool" where
  mw_Atom: "P c \<Longrightarrow> matchesWord (Atom P) [c]"
| mw_Eps: "matchesWord Eps []"
| mw_Seq: "matchesWord a u \<Longrightarrow> matchesWord b v \<Longrightarrow> matchesWord (Seq a b) (u @ v)"
| mw_AltL: "matchesWord a u \<Longrightarrow> matchesWord (Alt a b) u"
| mw_AltR: "matchesWord b u \<Longrightarrow> matchesWord (Alt a b) u"
| mw_Star0: "matchesWord (Star a) []"
| mw_StarS: "matchesWord a u \<Longrightarrow> matchesWord (Star a) v \<Longrightarrow> matchesWord (Star a) (u @ v)"
| mw_Opt0: "matchesWord (Opt a) []"
| mw_OptS: "matchesWord a u \<Longrightarrow> matchesWord (Opt a) u"
| mw_Group: "matchesWord a u \<Longrightarrow> matchesWord (Group n a) u"
| mw_WordB: "matchesWord WordB []"
| mw_Bol: "matchesWord Bol []"

text \<open>The least number of characters that a match of the pattern consumes.\<close>

fun minLen :: "regex \<Rightarrow> nat" where
  "minLen (Atom P) = 1"
| "minLen Eps = 0"
| "minLen (Seq a b) = minLen a + minLen b"
| "minLen (Alt a b) = min (minLen a) (minLen b)"
| "minLen (Star a) = 0"
| "minLen (Opt a) = 0"
| "minLen (Group n a) = minLen a"
| "minLen WordB = 0"
| "minLen Bol = 0"

text \<open>
  Every match of a global pattern across the whole text, in the order in which the calls
  of \<open>exec\<close> return them: each search starts where the match before it ended.
\<close>

function execMatches :: "regex \<Rightarrow> jschar option \<Rightarrow> jsstring \<Rightarrow> jsmatch list option" where
  "execMatches pattern p s =
     (case searchFrom pattern p s of
        None \<Rightarrow> Some []
      | Some mt \<Rightarrow>
          if length (rest (endState mt)) < length s
          then map_option (Cons mt) (execMatches pattern (prevc (endState mt)) (rest (endState mt)))
          else None)"
  by pat_completeness auto
termination
  by (relation "measure (\<lambda>(pattern, p, s). length s)") auto

declare execMatches.simps [simp del]

text \<open>The pattern matches at one of the first \<open>n\<close> positions from the current one.\<close>

fun matchStartsIn :: "regex \<Rightarrow> jschar option \<Rightarrow> jsstring \<Rightarrow> nat \<Rightarrow> bool" where
  "matchStartsIn r p s 0 = False"
| "matchStartsIn r p [] (Suc n) = (matchHere r p [] \<noteq> None)"
| "matchStartsIn r p (c # cs) (Suc n) =
     (matchHere r p (c # cs) \<noteq> None \<or> matchStartsIn r (Some c) cs n)"

text \<open>The character before the text that follows \<open>pre\<close>.\<close>

definition lastOr :: "jschar option \<Rightarrow> jsstring \<Rightarrow> jschar option" where
  "lastOr p pre = (if pre = [] then p else Some (last pre))"

text \<open>
  The separator rules in the words of the specification.  The decimal point is the last
  occurrence of the separator that the rule names; every other character that is not a
  digit is stripped, so that one decimal point is left.
\<close>

definition afterLast :: "jschar \<Rightarrow> jsstring \<Rightarrow> jsstring" where
  "afterLast c s = rev (takeWhile (\<lambda>x. x \<noteq> c) (rev s))"

definition beforeLast :: "jschar \<Rightarrow> jsstring \<Rightarrow> jsstring" where
  "beforeLast c s = rev (drop 1 (dropWhile (\<lambda>x. x \<noteq> c) (rev s)))"

definition digitsOnly :: "jsstring \<Rightarrow> jsstring" where
  "digitsOnly s = filter isDigit s"

definition definedNumber :: "number \<Rightarrow> number option" where
  "definedNumber n = (if n = NaN then None else Some n)"

text \<open>
  One kind of separator \<open>c\<close> in the token: exactly two digits after the last \<open>c\<close> make
  it the decimal point, with those two digits as the fractional part; otherwise every
  \<open>c\<close> is removed and there is no decimal point.
\<close>

definition claimedOneSeparator :: "jschar \<Rightarrow> jsstring \<Rightarrow> number option" where
  "claimedOneSeparator c t =
     (let a = afterLast c t
      in if length a = 2 \<and> list_all isDigit a
         then definedNumber (parseFloat (digitsOnly (beforeLast c t) @ DOT # a))
         else definedNumber (parseFloat (digitsOnly t)))"

text \<open>
  Both separators in the token: the one whose last occurrence comes later is the decimal
  point, the other one is removed with all its repeats.
\<close>

definition decimalAtLast :: "jschar \<Rightarrow> jsstring \<Rightarrow> number option" where
  "decimalAtLast c t =
     definedNumber (parseFloat (digitsOnly (beforeLast c t) @ DOT # digitsOnly (afterLast c t)))"

definition claimedBothSeparators :: "jsstring \<Rightarrow> number option" where
  "claimedBothSeparators t =
     (if lastIndexOf t DOT < lastIndexOf t COMMA then decimalAtLast COMMA t
      else decimalAtLast DOT t)"

text \<open>
  A whole-word occurrence of a currency code at the current position, in any case: the
  next three characters spell a code, the character before them and the character after
  them are no word characters (or there is none).  The result is the code, in upper case.
\<close>

definition codeAt :: "jschar option \<Rightarrow> jsstring \<Rightarrow> jsstring option" where
  "codeAt p s =
     (if 3 \<le> length s \<and> toUpperCase (take 3 s) \<in> set currencyCodes
         \<and> \<not> (case p of None \<Rightarrow> False | Some c \<Rightarrow> isWordChar c)
         \<and> \<not> (case drop 3 s of [] \<Rightarrow> False | c # _ \<Rightarrow> isWordChar c)
      then Some (toUpperCase (take 3 s)) else None)"

text \<open>The first such occurrence in the text, from left to right.\<close>

fun firstCode :: "jschar option \<Rightarrow> jsstring \<Rightarrow> jsstring option" where
  "firstCode p [] = None"
| "firstCode p (c # cs) =
     (case codeAt p (c # cs) of Some code \<Rightarrow> Some code | None \<Rightarrow> firstCode (Some c) cs)"

definition wholeWordCurrency :: "jsstring \<Rightarrow> jsstring" where
  "wholeWordCurrency text = (case firstCode None text of Some code \<Rightarrow> code | None \<Rightarrow> js ''NOK'')"

text \<open>The normalized amounts of all matches of a pattern in the text.\<close>

definition candidateAmounts :: "regex \<Rightarrow> jsstring \<Rightarrow> number option list" where
  "candidateAmounts pattern text =
     (case execMatches pattern None text of
        None \<Rightarrow> []
      | Some ms \<Rightarrow> map (\<lambda>mt. parseCapture (group mt 1)) ms)"

definition keywordCandidates :: "jsstring \<Rightarrow> number option list" where
  "keywordCandidates text = concat (map (\<lambda>pattern. candidateAmounts pattern text) totalPatterns)"

definition globalCandidates :: "jsstring \<Rightarrow> number option list" where
  "globalCandidates text = candidateAmounts moneyRegex text"

text \<open>The candidates that are positive and strictly below 1,000,000.\<close>

fun plausibleValues :: "number option list \<Rightarrow> rat list" where
  "plausibleValues [] = []"
| "plausibleValues (Some (Num q) # cs) =
     (if 0 < q \<and> q < 1000000 then q # plausibleValues cs else plausibleValues cs)"
| "plausibleValues (_ # cs) = plausibleValues cs"

definition maximumOf :: "rat list \<Rightarrow> number option" where
  "maximumOf vs = (if vs = [] then None else Some (Num (Max (set vs))))"

text \<open>
  The total as the two phases describe it: the maximum of the plausible keyword-anchored
  values when there is one, else the maximum of the plausible values of the global scan,
  else no total.
\<close>

definition twoPhaseTotal :: "jsstring \<Rightarrow> number option" where
  "twoPhaseTotal text =
     (let anchored = plausibleValues (keywordCandidates text)
      in if anchored \<noteq> [] then maximumOf anchored
         else maximumOf (plausibleValues (globalCandidates text)))"

section \<open>Evaluation on concrete inputs\<close>

lemma floor_rat_numeral_div: "\<lfloor>(numeral a / numeral b)::rat\<rfloor> = numeral a div numeral b"
  by (metis floor_divide_of_int_eq of_int_numeral)

lemmas number_eval = numberValue_def binExp.simps pow2_def roundHalfEven_def Let_def
  floor_rat_numeral_div

lemmas string_eval = js_def trim_def isWhiteSpace_def isDigit_def includes_js_def lastIndexOf_def
  removeAll_js_def substringFrom_def COMMA_def DOT_def SPACE_def

lemmas parse_eval = parseNorwegianCurrency_def resolveSeparators_def stripNonNumeric_def
  parseFloat_def mathValue_def digitsValue_def

lemmas regex_eval = chr_def chrI_def caseFold_def digit_def space_def oneOf_def strI_def
  plus_def rep2_def rep3_def rep4_def rep1to4_def rep3up_def isWordChar_def atWordBoundary_def
  matchHere_def match_js_def test_js_def group_def

lemmas vat_eval = detectVat_def vatPatterns_def breakdownPattern_def amountLoose_def amountStrict_def sep_def
  mvaOrVat_def vatCapture_def parseCapture_def

section \<open>Properties of parseNorwegianCurrency\<close>

lemma numberValue_not_NaN [simp]: "numberValue q \<noteq> NaN"
  by (simp add: numberValue_def Let_def)

lemma roundHalfEven_nonneg: "0 \<le> x \<Longrightarrow> 0 \<le> roundHalfEven x"
  by (simp add: roundHalfEven_def Let_def)

lemma pow2_pos: "0 < pow2 e"
  by (simp add: pow2_def)

lemma numberValue_nonNegative: "nonNegative (numberValue q)"
proof (cases "q \<le> 0")
  case True
  then show ?thesis by (simp add: numberValue_def)
next
  case False
  define u where "u = pow2 (max (binExp 1100 q) (- 1022) - 52)"
  have "0 < u" by (simp add: u_def pow2_pos)
  with False have "0 \<le> q / u" by simp
  then have "0 \<le> roundHalfEven (q / u)" by (rule roundHalfEven_nonneg)
  with \<open>0 < u\<close> have "0 \<le> rat_of_int (roundHalfEven (q / u)) * u" by simp
  with False show ?thesis by (simp add: numberValue_def Let_def u_def)
qed

lemma parseFloat_nonNegative: "parseFloat s = NaN \<or> nonNegative (parseFloat s)"
  by (simp add: parseFloat_def Let_def numberValue_nonNegative)

text \<open>The string handed to \<open>parseFloat\<close> has digits and dots only.\<close>

lemma normalized_alphabet:
  "c \<in> set (stripNonNumeric (resolveSeparators (trim s))) \<Longrightarrow> isDigit c \<or> c = DOT"
  by (simp add: stripNonNumeric_def)

text \<open>
  C1.  The disambiguation battery: \<open>"1.234,56"\<close> and \<open>"1,234.56"\<close> give the number
  1234.56, \<open>"1.234"\<close> and \<open>"1,234"\<close> give 1234, \<open>"123,45"\<close> and \<open>"123.45"\<close> give 123.45.
  The number 1234.56 is the value of the literal \<open>1234.56\<close>, the binary64 value nearest to
  it, and so for 123.45.
\<close>

theorem disambiguation_battery:
  "parseNorwegianCurrency (js ''1.234,56'') = Some (numberValue (123456 / 100)) \<and>
   parseNorwegianCurrency (js ''1,234.56'') = Some (numberValue (123456 / 100)) \<and>
   parseNorwegianCurrency (js ''1.234'') = Some (Num 1234) \<and>
   parseNorwegianCurrency (js ''1,234'') = Some (Num 1234) \<and>
   parseNorwegianCurrency (js ''123,45'') = Some (numberValue (12345 / 100)) \<and>
   parseNorwegianCurrency (js ''123.45'') = Some (numberValue (12345 / 100))"
proof -
  have "parseNorwegianCurrency (js ''1.234,56'') = Some (numberValue (123456 / 100))"
    by (simp add: string_eval parse_eval)
  moreover have "parseNorwegianCurrency (js ''1,234.56'') = Some (numberValue (123456 / 100))"
    by (simp add: string_eval parse_eval)
  moreover have "parseNorwegianCurrency (js ''1.234'') = Some (Num 1234)"
    by (simp add: string_eval parse_eval number_eval)
  moreover have "parseNorwegianCurrency (js ''1,234'') = Some (Num 1234)"
    by (simp add: string_eval parse_eval number_eval)
  moreover have "parseNorwegianCurrency (js ''123,45'') = Some (numberValue (12345 / 100))"
    by (simp add: string_eval parse_eval)
  moreover have "parseNorwegianCurrency (js ''123.45'') = Some (numberValue (12345 / 100))"
    by (simp add: string_eval parse_eval)
  ultimately show ?thesis by blast
qed

text \<open>
  C10.  The result of \<open>parseNorwegianCurrency\<close> is no value or a number that is not
  negative, for every string; the minus sign of \<open>"-123,45"\<close> is stripped with every other
  character that is not a digit or a dot, and the result is 123.45.
\<close>

theorem parse_never_negative:
  "(parseNorwegianCurrency s = None \<or> (\<exists>n. parseNorwegianCurrency s = Some n \<and> nonNegative n)) \<and>
   parseNorwegianCurrency (js ''-123,45'') = Some (numberValue (12345 / 100)) \<and>
   numberValue (12345 / 100) = Num (8687021468732621 / 70368744177664)"
proof -
  have "parseNorwegianCurrency s = None \<or> (\<exists>n. parseNorwegianCurrency s = Some n \<and> nonNegative n)"
    using parseFloat_nonNegative [of "stripNonNumeric (resolveSeparators (trim s))"]
    by (auto simp: parseNorwegianCurrency_def Let_def)
  moreover have "parseNorwegianCurrency (js ''-123,45'') = Some (numberValue (12345 / 100))"
    by (simp add: string_eval parse_eval)
  moreover have "numberValue (12345 / 100) = Num (8687021468732621 / 70368744177664)"
    by (simp add: number_eval)
  ultimately show ?thesis by blast
qed

section \<open>Properties of the matcher and of the loops over matches\<close>

lemma m_sound: "m r st k = Some x \<Longrightarrow> \<exists>st'. reach r st st' \<and> k st' = Some x"
proof (induction r st k arbitrary: x rule: m.induct)
  case (1 P st k)
  then show ?case by (auto split: list.splits if_splits intro: reach_Atom)
next
  case (2 st k)
  then show ?case by (auto intro: reach_Eps)
next
  case (3 a b st k)
  from "3.prems" have "m a st (\<lambda>st'. m b st' k) = Some x" by simp
  from "3.IH"(2)[OF this] obtain st1 where a: "reach a st st1" and "m b st1 k = Some x" by blast
  from "3.IH"(1)[OF this(2)] obtain st2 where "reach b st1 st2" "k st2 = Some x" by blast
  with a show ?case by (blast intro: reach_Seq)
next
  case (4 a b st k)
  show ?case
  proof (cases "m a st k")
    case None
    with "4.prems" have "m b st k = Some x" by simp
    from "4.IH"(2)[OF None this] show ?thesis by (blast intro: reach_AltR)
  next
    case (Some y)
    with "4.prems" have "m a st k = Some x" by simp
    from "4.IH"(1)[OF this] show ?thesis by (blast intro: reach_AltL)
  qed
next
  case (5 a st k)
  let ?K = "\<lambda>st'. if length (rest st') < length (rest st) then m (Star a) st' k else None"
  show ?case
  proof (cases "m a st ?K")
    case None
    with "5.prems" have "k st = Some x" by simp
    then show ?thesis by (blast intro: reach_Star0)
  next
    case (Some y)
    with "5.prems" have "m a st ?K = Some x" by simp
    from "5.IH"(2)[OF this] obtain st1 where a: "reach a st st1" and k: "?K st1 = Some x" by blast
    from k have lt: "length (rest st1) < length (rest st)" and "m (Star a) st1 k = Some x"
      by (auto split: if_splits)
    from "5.IH"(1)[OF lt this(2)] obtain st2 where "reach (Star a) st1 st2" "k st2 = Some x" by blast
    with a lt show ?thesis by (blast intro: reach_StarS)
  qed
next
  case (6 a st k)
  let ?K = "\<lambda>st'. if length (rest st') < length (rest st) then k st' else None"
  show ?case
  proof (cases "m a st ?K")
    case None
    with "6.prems" have "k st = Some x" by simp
    then show ?thesis by (blast intro: reach_Opt0)
  next
    case (Some y)
    with "6.prems" have "m a st ?K = Some x" by simp
    from "6.IH"[OF this] obtain st1 where a: "reach a st st1" and k: "?K st1 = Some x" by blast
    from k have lt: "length (rest st1) < length (rest st)" and "k st1 = Some x"
      by (auto split: if_splits)
    with a show ?thesis by (blast intro: reach_OptS)
  qed
next
  case (7 n a st k)
  from "7.prems" "7.IH" show ?case by (fastforce intro: reach_Group)
next
  case (8 st k)
  then show ?case by (auto split: if_splits intro: reach_WordB)
next
  case (9 st k)
  then show ?case by (auto split: if_splits intro: reach_Bol)
qed

lemma reach_minLen: "reach r st st' \<Longrightarrow> length (rest st') + minLen r \<le> length (rest st)"
  by (induction rule: reach.induct) auto

lemma matchHere_reach:
  "matchHere r p s = Some mt \<Longrightarrow>
   reach r \<lparr>prevc = p, rest = s, caps = []\<rparr> (endState mt) \<and>
   matched mt = take (length s - length (rest (endState mt))) s \<and>
   captures mt = caps (endState mt)"
  unfolding matchHere_def by (drule m_sound) auto

lemma matchHere_minLen:
  "matchHere r p s = Some mt \<Longrightarrow> length (rest (endState mt)) + minLen r \<le> length s"
  by (drule matchHere_reach) (auto dest: reach_minLen)

lemma searchFrom_minLen:
  "searchFrom r p s = Some mt \<Longrightarrow> length (rest (endState mt)) + minLen r \<le> length s"
proof (induction s arbitrary: p)
  case Nil
  then show ?case by (auto dest: matchHere_minLen)
next
  case (Cons c cs)
  show ?case
  proof (cases "matchHere r p (c # cs)")
    case None
    with Cons.prems have "searchFrom r (Some c) cs = Some mt" by simp
    from Cons.IH[OF this] show ?thesis by simp
  next
    case (Some a)
    with Cons.prems have "matchHere r p (c # cs) = Some mt" by simp
    then show ?thesis by (rule matchHere_minLen)
  qed
qed

lemma execMatches_total:
  "0 < minLen r \<Longrightarrow> \<exists>ms. execMatches r p s = Some ms"
proof (induction r p s rule: execMatches.induct)
  case (1 pattern p s)
  show ?case
  proof (cases "searchFrom pattern p s")
    case None
    then show ?thesis by (simp add: execMatches.simps)
  next
    case (Some mt)
    from searchFrom_minLen[OF Some] "1.prems"
    have lt: "length (rest (endState mt)) < length s" by simp
    from "1.IH"[OF Some lt "1.prems"] obtain ms where
      "execMatches pattern (prevc (endState mt)) (rest (endState mt)) = Some ms" by blast
    with Some lt show ?thesis by (simp add: execMatches.simps)
  qed
qed

lemma execLoop_fold:
  "execLoop r body p s acc = map_option (\<lambda>ms. fold body ms acc) (execMatches r p s)"
proof (induction r body p s acc rule: execLoop.induct)
  case (1 pattern body p s acc)
  show ?case
  proof (cases "searchFrom pattern p s")
    case None
    then show ?thesis by (simp add: execLoop.simps execMatches.simps)
  next
    case (Some mt)
    show ?thesis
    proof (cases "length (rest (endState mt)) < length s")
      case True
      from "1.IH"[OF Some True] Some True show ?thesis
        by (subst execLoop.simps, subst execMatches.simps) (simp add: option.map_comp comp_def)
    next
      case False
      with Some show ?thesis by (simp add: execLoop.simps execMatches.simps)
    qed
  qed
qed

subsection \<open>The running maximum\<close>

lemma parseNorwegianCurrency_not_NaN: "parseNorwegianCurrency s \<noteq> Some NaN"
  by (simp add: parseNorwegianCurrency_def Let_def)

lemma parseCapture_not_NaN: "parseCapture c \<noteq> Some NaN"
  by (cases c) (simp_all add: parseCapture_def parseNorwegianCurrency_not_NaN)

lemma plausibleValues_append:
  "plausibleValues (xs @ ys) = plausibleValues xs @ plausibleValues ys"
  by (induction xs rule: plausibleValues.induct) auto

lemma plausibleValues_range:
  "q \<in> set (plausibleValues cs) \<Longrightarrow> 0 < q \<and> q < 1000000"
  by (induction cs rule: plausibleValues.induct) (auto split: if_splits)

lemma maximumOf_Cons:
  "maximumOf (a # vs) = Some (Num (if vs = [] then a else max a (Max (set vs))))"
  by (simp add: maximumOf_def)

lemma maximumOf_range:
  assumes "maximumOf vs = Some n" and "\<forall>q \<in> set vs. 0 < q \<and> q < 1000000"
  shows "\<exists>q. n = Num q \<and> 0 < q \<and> q < 1000000"
proof -
  from assms(1) have ne: "vs \<noteq> []" and n: "n = Num (Max (set vs))"
    by (auto simp: maximumOf_def split: if_splits)
  from ne have "Max (set vs) \<in> set vs" by (intro Max_in) auto
  with assms(2) n show ?thesis by blast
qed

text \<open>One step of the keyword loop on a total that is already a plausible value.\<close>

lemma totalStep_Some:
  assumes "0 < t" and "t < 1000000"
  shows "totalStep mt (Some (Num t)) =
         (case plausibleValues [parseCapture (group mt 1)] of
            [] \<Rightarrow> Some (Num t) | q # _ \<Rightarrow> Some (Num (max t q)))"
proof (cases "parseCapture (group mt 1)")
  case None
  then show ?thesis by (simp add: totalStep_def accepts_def)
next
  case (Some a)
  show ?thesis
  proof (cases a)
    case NaN
    with Some show ?thesis using parseCapture_not_NaN by simp
  next
    case (Num q)
    with Some assms show ?thesis
      by (auto simp: totalStep_def accepts_def orZero_def numGreater_def MILLION_def max_def)
  next
    case PosInf
    with Some show ?thesis by (simp add: totalStep_def accepts_def numGreater_def MILLION_def)
  qed
qed

lemma totalStep_None:
  "totalStep mt None =
     (case plausibleValues [parseCapture (group mt 1)] of [] \<Rightarrow> None | q # _ \<Rightarrow> Some (Num q))"
proof (cases "parseCapture (group mt 1)")
  case None
  then show ?thesis by (simp add: totalStep_def accepts_def)
next
  case (Some a)
  show ?thesis
  proof (cases a)
    case NaN
    with Some show ?thesis using parseCapture_not_NaN by simp
  next
    case (Num q)
    with Some show ?thesis
      by (auto simp: totalStep_def accepts_def orZero_def numGreater_def MILLION_def)
  next
    case PosInf
    with Some show ?thesis by (simp add: totalStep_def accepts_def numGreater_def MILLION_def)
  qed
qed

lemma plausibleValues_single:
  "plausibleValues (c # cs) = plausibleValues [c] @ plausibleValues cs"
  using plausibleValues_append [of "[c]" cs] by simp

lemma plausibleValues_single_cases:
  "plausibleValues [c] = [] \<or> (\<exists>q. plausibleValues [c] = [q] \<and> 0 < q \<and> q < 1000000)"
  by (cases "[c]" rule: plausibleValues.cases) auto

lemma Max_insert_max:
  "finite S \<Longrightarrow> Max (insert (max t q) S) = max (t::rat) (Max (insert q S))"
  by (cases "S = {}") (simp_all add: max.assoc)

lemma fold_totalStep_Some:
  "0 < t \<Longrightarrow> t < 1000000 \<Longrightarrow>
   fold totalStep ms (Some (Num t)) =
     maximumOf (t # plausibleValues (map (\<lambda>mt. parseCapture (group mt 1)) ms))"
proof (induction ms arbitrary: t)
  case Nil
  then show ?case by (simp add: maximumOf_def)
next
  case (Cons mt ms)
  define c where "c = parseCapture (group mt 1)"
  define vs where "vs = plausibleValues (map (\<lambda>mt. parseCapture (group mt 1)) ms)"
  have split: "plausibleValues (map (\<lambda>mt. parseCapture (group mt 1)) (mt # ms)) =
               plausibleValues [c] @ vs"
    using plausibleValues_append [of "[c]" "map (\<lambda>mt. parseCapture (group mt 1)) ms"]
    by (simp add: c_def vs_def)
  have fold: "fold totalStep (mt # ms) (Some (Num t)) = fold totalStep ms (totalStep mt (Some (Num t)))"
    by simp
  from plausibleValues_single_cases [of c] show ?case
  proof
    assume e: "plausibleValues [c] = []"
    with Cons.prems have "totalStep mt (Some (Num t)) = Some (Num t)"
      by (simp add: totalStep_Some c_def)
    with Cons.IH [OF Cons.prems] e show ?thesis
      unfolding fold split vs_def by simp
  next
    assume "\<exists>q. plausibleValues [c] = [q] \<and> 0 < q \<and> q < 1000000"
    then obtain q where q: "plausibleValues [c] = [q]" "0 < q" "q < 1000000" by blast
    with Cons.prems have step: "totalStep mt (Some (Num t)) = Some (Num (max t q))"
      by (simp add: totalStep_Some c_def)
    from q Cons.prems have "0 < max t q" "max t q < 1000000" by auto
    from Cons.IH [OF this] have
      "fold totalStep ms (Some (Num (max t q))) = maximumOf (max t q # vs)"
      by (simp add: vs_def)
    moreover have "maximumOf (max t q # vs) = maximumOf (t # [q] @ vs)"
      by (simp add: maximumOf_def Max_insert_max)
    ultimately show ?thesis unfolding fold split step q(1) by simp
  qed
qed

lemma fold_totalStep_None:
  "fold totalStep ms None = maximumOf (plausibleValues (map (\<lambda>mt. parseCapture (group mt 1)) ms))"
proof (induction ms)
  case Nil
  then show ?case by (simp add: maximumOf_def)
next
  case (Cons mt ms)
  define c where "c = parseCapture (group mt 1)"
  define vs where "vs = plausibleValues (map (\<lambda>mt. parseCapture (group mt 1)) ms)"
  have split: "plausibleValues (map (\<lambda>mt. parseCapture (group mt 1)) (mt # ms)) =
               plausibleValues [c] @ vs"
    using plausibleValues_append [of "[c]" "map (\<lambda>mt. parseCapture (group mt 1)) ms"]
    by (simp add: c_def vs_def)
  have fold: "fold totalStep (mt # ms) None = fold totalStep ms (totalStep mt None)"
    by simp
  from plausibleValues_single_cases [of c] show ?case
  proof
    assume e: "plausibleValues [c] = []"
    then have "totalStep mt None = None" by (simp add: totalStep_None c_def)
    with Cons.IH e show ?thesis unfolding fold split vs_def by simp
  next
    assume "\<exists>q. plausibleValues [c] = [q] \<and> 0 < q \<and> q < 1000000"
    then obtain q where q: "plausibleValues [c] = [q]" "0 < q" "q < 1000000" by blast
    then have step: "totalStep mt None = Some (Num q)" by (simp add: totalStep_None c_def)
    from fold_totalStep_Some [OF q(2,3), of ms] show ?thesis
      unfolding fold split step q(1) vs_def by simp
  qed
qed

lemma Max_insert_Max_Un:
  "finite X \<Longrightarrow> X \<noteq> {} \<Longrightarrow> finite Y \<Longrightarrow> Max (insert (Max X) Y) = Max (X \<union> (Y::rat set))"
  by (cases "Y = {}") (simp_all add: Max_Un)

lemma maximumOf_glue:
  assumes "maximumOf xs = Some (Num t)"
  shows "maximumOf (t # ys) = maximumOf (xs @ ys)"
proof -
  from assms have ne: "xs \<noteq> []" and t: "t = Max (set xs)"
    by (auto simp: maximumOf_def split: if_splits)
  from ne have "Max (insert (Max (set xs)) (set ys)) = Max (set xs \<union> set ys)"
    by (intro Max_insert_Max_Un) auto
  with ne t show ?thesis by (simp add: maximumOf_def)
qed

lemma maximumOf_Some_Num:
  "vs \<noteq> [] \<Longrightarrow> \<exists>t. maximumOf vs = Some (Num t) \<and> t \<in> set vs"
  by (auto simp: maximumOf_def intro!: Max_in)

lemma candidateAmounts_Some:
  "execMatches pattern None text = Some ms \<Longrightarrow>
   candidateAmounts pattern text = map (\<lambda>mt. parseCapture (group mt 1)) ms"
  by (simp add: candidateAmounts_def)

lemma execLoop_totalStep_None:
  assumes "0 < minLen pattern"
  shows "execLoop pattern totalStep None text None =
         Some (maximumOf (plausibleValues (candidateAmounts pattern text)))"
proof -
  from execMatches_total [OF assms] obtain ms where ms: "execMatches pattern None text = Some ms"
    by blast
  then show ?thesis
    by (simp add: execLoop_fold fold_totalStep_None candidateAmounts_Some)
qed

lemma execLoop_totalStep_Some:
  assumes "0 < minLen pattern" and "0 < t" and "t < 1000000"
  shows "execLoop pattern totalStep None text (Some (Num t)) =
         Some (maximumOf (t # plausibleValues (candidateAmounts pattern text)))"
proof -
  from execMatches_total [OF assms(1)] obtain ms where ms: "execMatches pattern None text = Some ms"
    by blast
  then show ?thesis
    by (simp add: execLoop_fold fold_totalStep_Some [OF assms(2,3)] candidateAmounts_Some)
qed

lemma totalLoop_Some:
  "\<forall>pattern \<in> set ps. 0 < minLen pattern \<Longrightarrow> 0 < t \<Longrightarrow> t < 1000000 \<Longrightarrow>
   totalLoop ps text (Some (Num t)) =
     Some (maximumOf (t # plausibleValues (concat (map (\<lambda>pattern. candidateAmounts pattern text) ps))))"
proof (induction ps arbitrary: t)
  case Nil
  then show ?case by (simp add: maximumOf_def)
next
  case (Cons p ps)
  define A where "A = plausibleValues (candidateAmounts p text)"
  define B where "B = plausibleValues (concat (map (\<lambda>pattern. candidateAmounts pattern text) ps))"
  from Cons.prems have p: "0 < minLen p" and ps: "\<forall>pattern \<in> set ps. 0 < minLen pattern" by auto
  have step: "execLoop p totalStep None text (Some (Num t)) = Some (maximumOf (t # A))"
    using execLoop_totalStep_Some [OF p Cons.prems(2,3)] by (simp add: A_def)
  from maximumOf_Some_Num [of "t # A"] obtain t' where
    t': "maximumOf (t # A) = Some (Num t')" "t' \<in> set (t # A)" by auto
  from t'(2) Cons.prems(2,3) have range: "0 < t'" "t' < 1000000"
    by (auto simp: A_def dest: plausibleValues_range)
  have "totalLoop ps text (Some (Num t')) = Some (maximumOf (t' # B))"
    using Cons.IH [OF ps range] by (simp add: B_def)
  moreover have "maximumOf (t' # B) = maximumOf ((t # A) @ B)"
    using t'(1) by (rule maximumOf_glue)
  moreover have "plausibleValues (concat (map (\<lambda>pattern. candidateAmounts pattern text) (p # ps))) = A @ B"
    by (simp add: A_def B_def plausibleValues_append)
  ultimately show ?case using step t'(1) by simp
qed

lemma totalLoop_None:
  "\<forall>pattern \<in> set ps. 0 < minLen pattern \<Longrightarrow>
   totalLoop ps text None =
     Some (maximumOf (plausibleValues (concat (map (\<lambda>pattern. candidateAmounts pattern text) ps))))"
proof (induction ps)
  case Nil
  then show ?case by (simp add: maximumOf_def)
next
  case (Cons p ps)
  define A where "A = plausibleValues (candidateAmounts p text)"
  define B where "B = plausibleValues (concat (map (\<lambda>pattern. candidateAmounts pattern text) ps))"
  from Cons.prems have p: "0 < minLen p" and ps: "\<forall>pattern \<in> set ps. 0 < minLen pattern" by auto
  have step: "execLoop p totalStep None text None = Some (maximumOf A)"
    using execLoop_totalStep_None [OF p] by (simp add: A_def)
  have split: "plausibleValues (concat (map (\<lambda>pattern. candidateAmounts pattern text) (p # ps))) = A @ B"
    by (simp add: A_def B_def plausibleValues_append)
  show ?case
  proof (cases "A = []")
    case True
    then have "maximumOf A = None" by (simp add: maximumOf_def)
    with step Cons.IH [OF ps] True show ?thesis unfolding split by (simp add: B_def)
  next
    case False
    from maximumOf_Some_Num [OF False] obtain t' where
      t': "maximumOf A = Some (Num t')" "t' \<in> set A" by auto
    from t'(2) have range: "0 < t'" "t' < 1000000"
      by (auto simp: A_def dest: plausibleValues_range)
    have "totalLoop ps text (Some (Num t')) = Some (maximumOf (t' # B))"
      using totalLoop_Some [OF ps range] by (simp add: B_def)
    moreover have "maximumOf (t' # B) = maximumOf (A @ B)"
      using t'(1) by (rule maximumOf_glue)
    ultimately show ?thesis using step t'(1) unfolding split by simp
  qed
qed

lemma minLen_seqs: "minLen (seqs rs) = sum_list (map minLen rs)"
  by (induction rs rule: seqs.induct) auto

lemma minLen_amountGrouped: "0 < minLen amountGrouped"
  by (simp add: amountGrouped_def minLen_seqs rep1to4_def digit_def)

lemma minLen_amountAny: "0 < minLen amountAny"
  by (simp add: amountAny_def minLen_amountGrouped minLen_seqs plus_def digit_def)

lemma minLen_totalPatterns: "\<forall>pattern \<in> set totalPatterns. 0 < minLen pattern"
  using minLen_amountGrouped minLen_amountAny by (simp add: totalPatterns_def minLen_seqs)

lemma minLen_moneyRegex: "0 < minLen moneyRegex"
  by (simp add: moneyRegex_def minLen_amountAny)

text \<open>One step of the global scan, on a maximum that is not negative.\<close>

lemma maxStep_Num:
  assumes "0 \<le> t" and "t < 1000000"
  shows "maxStep mt (Num t) =
         (case plausibleValues [parseCapture (group mt 1)] of
            [] \<Rightarrow> Num t | q # _ \<Rightarrow> Num (max t q))"
proof (cases "parseCapture (group mt 1)")
  case None
  then show ?thesis by (simp add: maxStep_def accepts_def)
next
  case (Some a)
  show ?thesis
  proof (cases a)
    case NaN
    with Some show ?thesis using parseCapture_not_NaN by simp
  next
    case (Num q)
    with Some assms show ?thesis
      by (auto simp: maxStep_def accepts_def numGreater_def MILLION_def max_def)
  next
    case PosInf
    with Some show ?thesis by (simp add: maxStep_def accepts_def numGreater_def MILLION_def)
  qed
qed

lemma fold_maxStep:
  "0 \<le> t \<Longrightarrow> t < 1000000 \<Longrightarrow>
   fold maxStep ms (Num t) =
     Num (Max (set (t # plausibleValues (map (\<lambda>mt. parseCapture (group mt 1)) ms))))"
proof (induction ms arbitrary: t)
  case Nil
  then show ?case by simp
next
  case (Cons mt ms)
  define c where "c = parseCapture (group mt 1)"
  define vs where "vs = plausibleValues (map (\<lambda>mt. parseCapture (group mt 1)) ms)"
  have split: "plausibleValues (map (\<lambda>mt. parseCapture (group mt 1)) (mt # ms)) =
               plausibleValues [c] @ vs"
    using plausibleValues_append [of "[c]" "map (\<lambda>mt. parseCapture (group mt 1)) ms"]
    by (simp add: c_def vs_def)
  have fold: "fold maxStep (mt # ms) (Num t) = fold maxStep ms (maxStep mt (Num t))"
    by simp
  from plausibleValues_single_cases [of c] show ?case
  proof
    assume e: "plausibleValues [c] = []"
    with Cons.prems have "maxStep mt (Num t) = Num t"
      by (simp add: maxStep_Num c_def)
    with Cons.IH [OF Cons.prems] e show ?thesis
      unfolding fold split vs_def by simp
  next
    assume "\<exists>q. plausibleValues [c] = [q] \<and> 0 < q \<and> q < 1000000"
    then obtain q where q: "plausibleValues [c] = [q]" "0 < q" "q < 1000000" by blast
    with Cons.prems have step: "maxStep mt (Num t) = Num (max t q)"
      by (simp add: maxStep_Num c_def)
    from q Cons.prems have "0 \<le> max t q" "max t q < 1000000" by auto
    from Cons.IH [OF this] have
      "fold maxStep ms (Num (max t q)) = Num (Max (set (max t q # vs)))"
      by (simp add: vs_def)
    moreover have "Max (set (max t q # vs)) = Max (set (t # [q] @ vs))"
      by (simp add: Max_insert_max)
    ultimately show ?thesis unfolding fold split step q(1) by simp
  qed
qed

lemma fallbackTotal_spec:
  "fallbackTotal text = Some (maximumOf (plausibleValues (globalCandidates text)))"
proof -
  define G where "G = plausibleValues (globalCandidates text)"
  from execMatches_total [OF minLen_moneyRegex] obtain ms where
    ms: "execMatches moneyRegex None text = Some ms" by blast
  then have loop: "execLoop moneyRegex maxStep None text (Num 0) = Some (Num (Max (set (0 # G))))"
    by (simp add: execLoop_fold fold_maxStep G_def globalCandidates_def candidateAmounts_Some)
  show ?thesis
  proof (cases "G = []")
    case True
    with loop show ?thesis
      by (simp add: fallbackTotal_def numGreater_def maximumOf_def G_def [symmetric])
  next
    case False
    then have "Max (set G) \<in> set G" by (intro Max_in) auto
    then have pos: "0 < Max (set G)" by (auto simp: G_def dest: plausibleValues_range)
    from False have "Max (set (0 # G)) = max 0 (Max (set G))" by simp
    with pos have "Max (set (0 # G)) = Max (set G)" by simp
    with loop pos False show ?thesis
      by (simp add: fallbackTotal_def numGreater_def maximumOf_def G_def [symmetric])
  qed
qed

lemma detectTotal_spec: "detectTotal text = Some (twoPhaseTotal text)"
proof -
  define K where "K = plausibleValues (keywordCandidates text)"
  have loop: "totalLoop totalPatterns text None = Some (maximumOf K)"
    using totalLoop_None [OF minLen_totalPatterns] by (simp add: K_def keywordCandidates_def)
  show ?thesis
  proof (cases "K = []")
    case True
    with loop show ?thesis
      by (simp add: detectTotal_def twoPhaseTotal_def maximumOf_def fallbackTotal_spec
          K_def [symmetric])
  next
    case False
    then have "Max (set K) \<in> set K" by (intro Max_in) auto
    then have "0 < Max (set K)" by (auto simp: K_def dest: plausibleValues_range)
    with loop False show ?thesis
      by (simp add: detectTotal_def twoPhaseTotal_def maximumOf_def K_def [symmetric])
  qed
qed

lemma twoPhaseTotal_range:
  "twoPhaseTotal text = None \<or> (\<exists>q. twoPhaseTotal text = Some (Num q) \<and> 0 < q \<and> q < 1000000)"
proof (cases "twoPhaseTotal text")
  case None
  then show ?thesis by simp
next
  case (Some n)
  then obtain vs where "maximumOf vs = Some n" "\<forall>q \<in> set vs. 0 < q \<and> q < 1000000"
    by (auto simp: twoPhaseTotal_def Let_def split: if_splits dest: plausibleValues_range)
  from maximumOf_range [OF this] Some show ?thesis by simp
qed

section \<open>The total\<close>

lemmas total_eval = detectTotal_def totalPatterns_def totalKeyword_def amountGrouped_def
  amountAny_def sepOrSpace_def sep_def moneyRegex_def fallbackTotal_def totalStep_def maxStep_def
  accepts_def orZero_def numGreater_def MILLION_def parseCapture_def execLoop.simps

lemmas spec_total_eval = twoPhaseTotal_def keywordCandidates_def globalCandidates_def
  candidateAmounts_def maximumOf_def execMatches.simps totalPatterns_def totalKeyword_def
  amountGrouped_def amountAny_def sepOrSpace_def sep_def moneyRegex_def parseCapture_def

lemma extract_total: "map_option total (extractStructuredFields text) = Some (twoPhaseTotal text)"
  by (simp add: extractStructuredFields_def detectTotal_spec)

text \<open>
  C4.  The function returns for every text, and its total is the two-phase total: with
  \<open>keywordCandidates text\<close> the normalized amounts of every match of every
  keyword-anchored pattern, the total is the maximum of those that are positive and below
  1,000,000 when there is one; only when there is none it is the maximum of the positive
  candidates below 1,000,000 of the global scan, and absent when there is none either.
\<close>

theorem total_two_phase:
  "map_option total (extractStructuredFields text) =
     Some (let anchored = plausibleValues (keywordCandidates text)
           in if anchored \<noteq> [] then Some (Num (Max (set anchored)))
              else let scanned = plausibleValues (globalCandidates text)
                   in if scanned \<noteq> [] then Some (Num (Max (set scanned))) else None)"
proof -
  have "twoPhaseTotal text =
     (let anchored = plausibleValues (keywordCandidates text)
      in if anchored \<noteq> [] then Some (Num (Max (set anchored)))
         else let scanned = plausibleValues (globalCandidates text)
              in if scanned \<noteq> [] then Some (Num (Max (set scanned))) else None)"
    by (simp add: twoPhaseTotal_def maximumOf_def Let_def)
  then show ?thesis by (simp only: extract_total)
qed

text \<open>
  In \<open>"sum 1,50 9,75"\<close> the keyword-anchored amount 1.50 is the total although the scan
  would find 9.75; without the keyword the scan decides.
\<close>

theorem total_two_phase_witness:
  "map_option total (extractStructuredFields (js ''sum 1,50 9,75'')) = Some (Some (Num (3 / 2))) \<and>
   map_option total (extractStructuredFields (js ''1,50 9,75'')) = Some (Some (Num (39 / 4)))"
proof -
  have a: "plausibleValues (keywordCandidates (js ''sum 1,50 9,75'')) = [3 / 2]"
    by (simp add: spec_total_eval regex_eval string_eval parse_eval number_eval)
  have b: "plausibleValues (keywordCandidates (js ''1,50 9,75'')) = []"
    by (simp add: spec_total_eval regex_eval string_eval parse_eval number_eval)
  have c: "plausibleValues (globalCandidates (js ''1,50 9,75'')) = [3 / 2, 39 / 4]"
    by (simp add: spec_total_eval regex_eval string_eval parse_eval number_eval)
  from total_two_phase [of "js ''sum 1,50 9,75''"] a
  have "map_option total (extractStructuredFields (js ''sum 1,50 9,75'')) = Some (Some (Num (3 / 2)))"
    by simp
  moreover from total_two_phase [of "js ''1,50 9,75''"] b c
  have "map_option total (extractStructuredFields (js ''1,50 9,75'')) = Some (Some (Num (39 / 4)))"
    by simp
  ultimately show ?thesis by blast
qed

lemma never_selected:
  assumes "parseCapture (group mt 1) = Some a" and "\<not> numLess a MILLION"
  shows "totalStep mt t0 = t0 \<and> maxStep mt mx = mx"
  using assms by (simp add: totalStep_def maxStep_def accepts_def)

text \<open>
  C5.  The function returns for every text, and a total that is present is a number
  strictly between 0 and 1,000,000.  A candidate that normalizes to 1,000,000 or more
  changes neither the running total of the keyword-anchored loop nor the running maximum
  of the global scan.
\<close>

theorem total_in_range:
  "(\<exists>f. extractStructuredFields text = Some f \<and>
        (total f = None \<or> (\<exists>q. total f = Some (Num q) \<and> 0 < q \<and> q < 1000000))) \<and>
   (\<forall>mt a t0 mx. parseCapture (group mt 1) = Some a \<and> \<not> numLess a MILLION \<longrightarrow>
        totalStep mt t0 = t0 \<and> maxStep mt mx = mx)"
proof
  from extract_total [of "text"] obtain f where
    f: "extractStructuredFields text = Some f" "total f = twoPhaseTotal text" by auto
  with twoPhaseTotal_range [of "text"]
  show "\<exists>f. extractStructuredFields text = Some f \<and>
        (total f = None \<or> (\<exists>q. total f = Some (Num q) \<and> 0 < q \<and> q < 1000000))"
    by auto
next
  show "\<forall>mt a t0 mx. parseCapture (group mt 1) = Some a \<and> \<not> numLess a MILLION \<longrightarrow>
        totalStep mt t0 = t0 \<and> maxStep mt mx = mx"
    using never_selected by blast
qed

text \<open>
  The amount \<open>"1000000,00"\<close> normalizes to 1,000,000 and is passed over, in a loop and
  in a whole text.
\<close>

theorem total_in_range_witness:
  "parseNorwegianCurrency (js ''1000000,00'') = Some (Num 1000000) \<and>
   totalStep \<lparr>matched = js ''1000000,00'', captures = [(1, js ''1000000,00'')],
              endState = \<lparr>prevc = Some 48, rest = [], caps = []\<rparr>\<rparr> None = None \<and>
   maxStep \<lparr>matched = js ''1000000,00'', captures = [(1, js ''1000000,00'')],
            endState = \<lparr>prevc = Some 48, rest = [], caps = []\<rparr>\<rparr> (Num 0) = Num 0 \<and>
   (\<exists>f. extractStructuredFields (js ''sum 1000000,00 sum 1,50'') = Some f \<and>
        total f = Some (Num (3 / 2)))"
proof -
  define mt where "mt = \<lparr>matched = js ''1000000,00'', captures = [(1, js ''1000000,00'')],
              endState = \<lparr>prevc = Some 48, rest = [], caps = []\<rparr>\<rparr>"
  have p: "parseNorwegianCurrency (js ''1000000,00'') = Some (Num 1000000)"
    by (simp add: string_eval parse_eval number_eval)
  then have c: "parseCapture (group mt 1) = Some (Num 1000000)"
    by (simp add: mt_def group_def parseCapture_def)
  have n: "\<not> numLess (Num 1000000) MILLION" by (simp add: MILLION_def)
  from total_in_range [of "js ''sum 1000000,00 sum 1,50''"] c n
  have steps: "totalStep mt None = None \<and> maxStep mt (Num 0) = Num 0" by blast
  have "detectTotal (js ''sum 1000000,00 sum 1,50'') = Some (Some (Num (3 / 2)))"
    by (simp add: total_eval regex_eval string_eval parse_eval number_eval)
  then have "\<exists>f. extractStructuredFields (js ''sum 1000000,00 sum 1,50'') = Some f \<and>
        total f = Some (Num (3 / 2))"
    by (simp add: extractStructuredFields_def)
  with p steps show ?thesis unfolding mt_def by blast
qed

section \<open>The VAT amount\<close>

lemma extract_vat: "map_option vatAmount (extractStructuredFields text) = Some (detectVat text)"
  by (simp add: extractStructuredFields_def detectTotal_spec)

lemma searchFrom_skip:
  "\<not> matchStartsIn r p (pre @ s) (length pre) \<Longrightarrow>
   searchFrom r p (pre @ s) = searchFrom r (lastOr p pre) s"
proof (induction pre arbitrary: p)
  case Nil
  then show ?case by (simp add: lastOr_def)
next
  case (Cons c cs)
  from Cons.prems have none: "matchHere r p (c # cs @ s) = None"
    and rest: "\<not> matchStartsIn r (Some c) (cs @ s) (length cs)" by auto
  from Cons.IH [OF rest] none show ?case by (simp add: lastOr_def)
qed

lemma searchFrom_here: "matchHere r p s = Some mt \<Longrightarrow> searchFrom r p s = Some mt"
  by (cases s) simp_all

lemma detectVat_first:
  "detectVat text =
     (case match_js text breakdownPattern of
        None \<Rightarrow> vatLoop (map (match_js text) (tl vatPatterns)) None
      | Some mt \<Rightarrow>
          if truthy (parseCapture (vatCapture mt)) then parseCapture (vatCapture mt)
          else vatLoop (map (match_js text) (tl vatPatterns)) (parseCapture (vatCapture mt)))"
  by (simp add: detectVat_def vatPatterns_def Let_def split: option.splits)

lemma breakdown_second_number:
  assumes "match_js text breakdownPattern = Some mt" and "group mt 2 = Some g2"
    and "truthy (parseNorwegianCurrency g2)"
  shows "detectVat text = parseNorwegianCurrency g2"
proof -
  from assms(3) have "g2 \<noteq> []" by (auto simp: parseNorwegianCurrency_def)
  with assms(2) have "vatCapture mt = Some g2" by (simp add: vatCapture_def)
  with assms(1,3) show ?thesis by (simp add: detectVat_first parseCapture_def)
qed

lemma breakdown_line_here:
  "\<exists>mt. matchHere breakdownPattern p (js ''1599.20 25% 399.80 1999.00'' @ post) = Some mt \<and>
        group mt 2 = Some (js ''399.80'')"
  by (simp add: breakdownPattern_def amountLoose_def sep_def regex_eval string_eval)

lemma parse_399_80:
  "parseNorwegianCurrency (js ''399.80'') = Some (numberValue (39980 / 100)) \<and>
   numberValue (39980 / 100) = Num (7033355980557517 / 17592186044416)"
  by (simp add: string_eval parse_eval number_eval)

lemma breakdown_line_vat:
  assumes "\<not> matchStartsIn breakdownPattern None
             (pre @ js ''1599.20 25% 399.80 1999.00'' @ post) (length pre)"
  shows "detectVat (pre @ js ''1599.20 25% 399.80 1999.00'' @ post) = Some (numberValue (39980 / 100))"
proof -
  define line where "line = js ''1599.20 25% 399.80 1999.00''"
  from breakdown_line_here [of "lastOr None pre" post] obtain mt where
    mt: "matchHere breakdownPattern (lastOr None pre) (line @ post) = Some mt"
        "group mt 2 = Some (js ''399.80'')"
    unfolding line_def by blast
  from searchFrom_here [OF mt(1)] searchFrom_skip [OF assms]
  have "match_js (pre @ line @ post) breakdownPattern = Some mt"
    by (simp add: match_js_def line_def)
  from breakdown_second_number [OF this mt(2)] parse_399_80 show ?thesis
    by (simp add: line_def)
qed

text \<open>
  C6.  When the breakdown pattern matches and its second capture normalizes to a value
  that is not zero, that value is the VAT amount.  For a text with the line
  \<open>1599.20 25% 399.80 1999.00\<close> in which the breakdown pattern matches at no position
  before the line, the VAT amount is 399.80.
\<close>

theorem breakdown_vat_is_second_number:
  "(\<forall>mt g2. match_js text breakdownPattern = Some mt \<and> group mt 2 = Some g2 \<and>
            truthy (parseNorwegianCurrency g2) \<longrightarrow>
      map_option vatAmount (extractStructuredFields text) = Some (parseNorwegianCurrency g2)) \<and>
   (\<forall>pre post. text = pre @ js ''1599.20 25% 399.80 1999.00'' @ post \<and>
            \<not> matchStartsIn breakdownPattern None text (length pre) \<longrightarrow>
      map_option vatAmount (extractStructuredFields text) = Some (Some (numberValue (39980 / 100))))"
proof (intro conjI allI impI)
  fix mt g2
  assume "match_js text breakdownPattern = Some mt \<and> group mt 2 = Some g2 \<and>
          truthy (parseNorwegianCurrency g2)"
  then show "map_option vatAmount (extractStructuredFields text) = Some (parseNorwegianCurrency g2)"
    using breakdown_second_number by (simp add: extract_vat)
next
  fix pre post
  assume "text = pre @ js ''1599.20 25% 399.80 1999.00'' @ post \<and>
          \<not> matchStartsIn breakdownPattern None text (length pre)"
  then have t: "text = pre @ js ''1599.20 25% 399.80 1999.00'' @ post"
    and n: "\<not> matchStartsIn breakdownPattern None
             (pre @ js ''1599.20 25% 399.80 1999.00'' @ post) (length pre)" by auto
  from breakdown_line_vat [OF n] t
  show "map_option vatAmount (extractStructuredFields text) =
             Some (Some (numberValue (39980 / 100)))"
    by (simp only: extract_vat)
qed

theorem breakdown_vat_is_second_number_witness:
  "(\<exists>mt. match_js (js ''ab 1599.20 25% 399.80 1999.00 c'') breakdownPattern = Some mt \<and>
         group mt 1 = Some (js ''1599.20'') \<and> group mt 2 = Some (js ''399.80'')) \<and>
   truthy (parseNorwegianCurrency (js ''399.80'')) \<and>
   \<not> matchStartsIn breakdownPattern None (js ''ab 1599.20 25% 399.80 1999.00 c'') 3 \<and>
   map_option vatAmount (extractStructuredFields (js ''ab 1599.20 25% 399.80 1999.00 c'')) =
     Some (Some (Num (7033355980557517 / 17592186044416)))"
proof -
  define T where "T = js ''ab 1599.20 25% 399.80 1999.00 c''"
  have T: "T = js ''ab '' @ js ''1599.20 25% 399.80 1999.00'' @ js '' c''"
    by (simp add: T_def js_def)
  have m: "\<exists>mt. match_js T breakdownPattern = Some mt \<and>
         group mt 1 = Some (js ''1599.20'') \<and> group mt 2 = Some (js ''399.80'')"
    by (simp add: T_def breakdownPattern_def amountLoose_def sep_def regex_eval string_eval)
  have t: "truthy (parseNorwegianCurrency (js ''399.80''))"
    using parse_399_80 by simp
  have n: "\<not> matchStartsIn breakdownPattern None T 3"
    by (simp add: T_def numeral_3_eq_3 breakdownPattern_def amountLoose_def sep_def regex_eval
        string_eval)
  from m obtain mt where mt: "match_js T breakdownPattern = Some mt"
    "group mt 2 = Some (js ''399.80'')" by blast
  from breakdown_vat_is_second_number [of T] mt t
  have "map_option vatAmount (extractStructuredFields T) = Some (parseNorwegianCurrency (js ''399.80''))"
    by blast
  with parse_399_80 have r: "map_option vatAmount (extractStructuredFields T) =
     Some (Some (Num (7033355980557517 / 17592186044416)))" by simp
  have len: "length (js ''ab '') = 3" by (simp add: js_def)
  from breakdown_vat_is_second_number [of T]
  have "T = js ''ab '' @ js ''1599.20 25% 399.80 1999.00'' @ js '' c'' \<and>
        \<not> matchStartsIn breakdownPattern None T (length (js ''ab '')) \<longrightarrow>
        map_option vatAmount (extractStructuredFields T) = Some (Some (numberValue (39980 / 100)))"
    by blast
  with T n len have "map_option vatAmount (extractStructuredFields T) =
        Some (Some (numberValue (39980 / 100)))" by simp
  from m t n r show ?thesis unfolding T_def by blast
qed

text \<open>
  C7.  In the text \<open>"MVA 0,00"\<close> the first, the second and the last VAT pattern do not
  match, the third and the fourth match and their capture \<open>"0,00"\<close> normalizes to zero;
  the VAT amount of the result is the number zero, present.
\<close>

theorem vat_zero_is_present:
  "map (\<lambda>pattern. map_option (\<lambda>mt. parseCapture (vatCapture mt)) (match_js (js ''MVA 0,00'') pattern))
       vatPatterns = [None, None, Some (Some (Num 0)), Some (Some (Num 0)), None] \<and>
   map_option vatAmount (extractStructuredFields (js ''MVA 0,00'')) = Some (Some (Num 0))"
proof -
  have "map (\<lambda>pattern. map_option (\<lambda>mt. parseCapture (vatCapture mt)) (match_js (js ''MVA 0,00'') pattern))
       vatPatterns = [None, None, Some (Some (Num 0)), Some (Some (Num 0)), None]"
    by (simp add: vat_eval regex_eval string_eval parse_eval number_eval)
  moreover have "detectVat (js ''MVA 0,00'') = Some (Num 0)"
    by (simp add: vat_eval regex_eval string_eval parse_eval number_eval)
  ultimately show ?thesis by (simp add: extract_vat)
qed

section \<open>The currency\<close>

lemma extract_currency:
  "map_option currency (extractStructuredFields text) = Some (Some (detectCurrency text))"
  by (simp add: extractStructuredFields_def detectTotal_spec)

lemma m_strI3:
  "m (strI [x, y, z]) st k =
     (case rest st of
        a # b # c # r \<Rightarrow>
          if map caseFold [a, b, c] = map caseFold [x, y, z]
          then k (st\<lparr>prevc := Some c, rest := r\<rparr>) else None
      | _ \<Rightarrow> None)"
  by (simp add: strI_def chrI_def split: list.splits)

lemma alts_Cons: "rs \<noteq> [] \<Longrightarrow> alts (r # rs) = Alt r (alts rs)"
  by (cases rs) simp_all

lemma m_alts_codes:
  assumes "cs \<noteq> []" and "\<forall>code \<in> set cs. length code = 3"
  shows "m (alts (map strI cs)) st k =
     (case rest st of
        a # b # c # r \<Rightarrow>
          if \<exists>code \<in> set cs. map caseFold [a, b, c] = map caseFold code
          then k (st\<lparr>prevc := Some c, rest := r\<rparr>) else None
      | _ \<Rightarrow> None)"
  using assms
proof (induction cs rule: list_nonempty_induct)
  case (single code)
  then obtain x y z where "code = [x, y, z]"
    by (auto simp: length_Suc_conv numeral_3_eq_3)
  then show ?case by (simp add: m_strI3 split: list.splits)
next
  case (cons code cs)
  then obtain x y z where code: "code = [x, y, z]"
    by (auto simp: length_Suc_conv numeral_3_eq_3)
  from cons.prems have "\<forall>code \<in> set cs. length code = 3" by simp
  note IH = cons.IH [OF this]
  from cons.hyps have "alts (map strI (code # cs)) = Alt (strI code) (alts (map strI cs))"
    by (simp add: alts_Cons)
  then show ?case
    by (simp add: IH code m_strI3 split: list.splits option.splits)
qed

lemma caseFold_toUpper:
  "65 \<le> U \<Longrightarrow> U \<le> 90 \<Longrightarrow>
   (caseFold x = caseFold U) = ((if 97 \<le> x \<and> x \<le> 122 then x - 32 else x) = U)"
  by (auto simp: caseFold_def)

lemma caseFold_toUpperCase:
  "\<forall>U \<in> set code. 65 \<le> U \<and> U \<le> 90 \<Longrightarrow>
   (map caseFold w = map caseFold code) = (toUpperCase w = code)"
proof (induction w arbitrary: code)
  case Nil
  then show ?case by (auto simp: toUpperCase_def)
next
  case (Cons x w)
  show ?case
  proof (cases code)
    case Nil
    then show ?thesis by (simp add: toUpperCase_def)
  next
    case (Cons U code')
    with Cons.prems have U: "65 \<le> U" "U \<le> 90" and rest: "\<forall>U \<in> set code'. 65 \<le> U \<and> U \<le> 90"
      by auto
    from Cons.IH [OF rest] caseFold_toUpper [OF U, of x] Cons show ?thesis
      by (simp add: toUpperCase_def)
  qed
qed

lemma currencyCodes_upper: "code \<in> set currencyCodes \<Longrightarrow> \<forall>U \<in> set code. 65 \<le> U \<and> U \<le> 90"
  by (auto simp: currencyCodes_def js_def)

lemma currencyCodes_length: "\<forall>code \<in> set currencyCodes. length code = 3"
  by (simp add: currencyCodes_def js_def)

lemma currencyCodes_nonempty: "currencyCodes \<noteq> []"
  by (simp add: currencyCodes_def)

lemma code_matches_iff:
  "(\<exists>code \<in> set currencyCodes. map caseFold w = map caseFold code) =
   (toUpperCase w \<in> set currencyCodes)"
proof
  assume "\<exists>code \<in> set currencyCodes. map caseFold w = map caseFold code"
  then obtain code where c: "code \<in> set currencyCodes" "map caseFold w = map caseFold code"
    by blast
  with caseFold_toUpperCase [OF currencyCodes_upper [OF c(1)], of w] show
    "toUpperCase w \<in> set currencyCodes" by simp
next
  assume c: "toUpperCase w \<in> set currencyCodes"
  with caseFold_toUpperCase [OF currencyCodes_upper [OF c], of w]
  show "\<exists>code \<in> set currencyCodes. map caseFold w = map caseFold code" by blast
qed

lemma code_matches_iff3:
  "(\<exists>code \<in> set currencyCodes. [caseFold a, caseFold b, caseFold c] = map caseFold code) =
   (toUpperCase [a, b, c] \<in> set currencyCodes)"
  using code_matches_iff [of "[a, b, c]"] by simp

lemma toUpperCase_letters:
  assumes "toUpperCase [a, b, c] \<in> set currencyCodes"
  shows "isWordChar a \<and> isWordChar c"
proof -
  from currencyCodes_upper [OF assms]
  have "65 \<le> (if 97 \<le> a \<and> a \<le> 122 then a - 32 else a) \<and>
        (if 97 \<le> a \<and> a \<le> 122 then a - 32 else a) \<le> 90 \<and>
        65 \<le> (if 97 \<le> c \<and> c \<le> 122 then c - 32 else c) \<and>
        (if 97 \<le> c \<and> c \<le> 122 then c - 32 else c) \<le> 90"
    by (simp add: toUpperCase_def)
  then show ?thesis by (auto simp: isWordChar_def split: if_splits)
qed

lemma currency_here_unfold:
  "matchHere currencyPattern p s =
     (if atWordBoundary \<lparr>prevc = p, rest = s, caps = []\<rparr> then
        (case s of
           a # b # c # r \<Rightarrow>
             if toUpperCase [a, b, c] \<in> set currencyCodes
             then (if atWordBoundary \<lparr>prevc = Some c, rest = r, caps = [(1, [a, b, c])]\<rparr>
                   then Some \<lparr>matched = [a, b, c], captures = [(1, [a, b, c])],
                         endState = \<lparr>prevc = Some c, rest = r, caps = [(1, [a, b, c])]\<rparr>\<rparr>
                   else None)
             else None
         | _ \<Rightarrow> None)
      else None)"
  by (simp add: matchHere_def currencyPattern_def
      m_alts_codes [OF currencyCodes_nonempty currencyCodes_length] code_matches_iff3
      split: list.splits)

lemma currency_here:
  "(case matchHere currencyPattern p s of
      None \<Rightarrow> None
    | Some mt \<Rightarrow> map_option toUpperCase (group mt 1)) = codeAt p s"
proof (cases "3 \<le> length s")
  case False
  then show ?thesis
    by (auto simp: currency_here_unfold codeAt_def split: list.splits)
next
  case True
  then obtain a b c r where s: "s = a # b # c # r"
    by (metis Suc_le_length_iff numeral_3_eq_3)
  show ?thesis
  proof (cases "toUpperCase [a, b, c] \<in> set currencyCodes")
    case False
    with s show ?thesis by (simp add: currency_here_unfold codeAt_def)
  next
    case True
    from toUpperCase_letters [OF True] True s show ?thesis
      by (cases r; cases p) (auto simp: currency_here_unfold codeAt_def atWordBoundary_def group_def)
  qed
qed

lemma currency_search:
  "(case searchFrom currencyPattern p s of
      None \<Rightarrow> None
    | Some mt \<Rightarrow> map_option toUpperCase (group mt 1)) = firstCode p s"
proof (induction s arbitrary: p)
  case Nil
  have "codeAt p [] = None" by (simp add: codeAt_def)
  with currency_here [of p "[]"] show ?case by simp
next
  case (Cons c cs)
  show ?case
  proof (cases "matchHere currencyPattern p (c # cs)")
    case None
    with currency_here [of p "c # cs"] have "codeAt p (c # cs) = None" by simp
    with None Cons.IH [of "Some c"] show ?thesis by simp
  next
    case (Some mt)
    with currency_here [of p "c # cs"]
    have "codeAt p (c # cs) = map_option toUpperCase (group mt 1)" by simp
    moreover from Some have "group mt 1 \<noteq> None"
      by (auto simp: currency_here_unfold group_def split: if_splits list.splits)
    ultimately show ?thesis using Some by auto
  qed
qed

lemma firstCode_member: "firstCode p s = Some code \<Longrightarrow> code \<in> set currencyCodes"
  by (induction s arbitrary: p) (auto simp: codeAt_def split: option.splits if_splits)

lemma detectCurrency_spec: "detectCurrency text = wholeWordCurrency text"
proof (cases "searchFrom currencyPattern None text")
  case None
  with currency_search [of None "text"] show ?thesis
    by (simp add: detectCurrency_def wholeWordCurrency_def match_js_def)
next
  case (Some mt)
  with currency_search [of None "text"]
  have "firstCode None text = map_option toUpperCase (group mt 1)" by simp
  with Some show ?thesis
    by (cases "group mt 1") (simp_all add: detectCurrency_def wholeWordCurrency_def match_js_def)
qed

lemma wholeWordCurrency_member: "wholeWordCurrency text \<in> set currencyCodes"
proof (cases "firstCode None text")
  case None
  then show ?thesis by (simp add: wholeWordCurrency_def currencyCodes_def)
next
  case (Some code)
  with firstCode_member [OF Some] show ?thesis by (simp add: wholeWordCurrency_def)
qed

text \<open>
  The capture that \<open>toUpperCase\<close> is applied to consists of ASCII letters, on which the
  model of \<open>toUpperCase\<close> is exact.
\<close>

lemma currency_capture_letters:
  assumes "match_js text currencyPattern = Some mt" and "group mt 1 = Some g"
  shows "\<forall>c \<in> set g. (65 \<le> c \<and> c \<le> 90) \<or> (97 \<le> c \<and> c \<le> 122)"
proof -
  from assms(1) currency_search [of None "text"]
  have "firstCode None text = map_option toUpperCase (group mt 1)"
    by (simp add: match_js_def)
  with assms(2) have "firstCode None text = Some (toUpperCase g)" by simp
  from currencyCodes_upper [OF firstCode_member [OF this]]
  show ?thesis by (auto simp: toUpperCase_def split: if_splits)
qed

text \<open>
  C8.  The function returns for every text; the currency of the result is present, it is
  one of the six codes, and it is the upper case of the first whole-word occurrence of a
  code in the text, in any case, or \<open>NOK\<close> when there is no such occurrence.
\<close>

theorem currency_is_first_code:
  "\<exists>f c. extractStructuredFields text = Some f \<and> currency f = Some c \<and>
         c \<in> set currencyCodes \<and>
         c = (case firstCode None text of Some code \<Rightarrow> code | None \<Rightarrow> js ''NOK'')"
proof -
  from extract_currency [of "text"] obtain f where
    f: "extractStructuredFields text = Some f" "currency f = Some (detectCurrency text)" by auto
  with detectCurrency_spec [of "text"] wholeWordCurrency_member [of "text"]
  show ?thesis by (auto simp: wholeWordCurrency_def)
qed

lemmas currency_eval = codeAt_def currencyCodes_def toUpperCase_def isWordChar_def

theorem currency_is_first_code_witness:
  "(\<exists>f. extractStructuredFields (js ''50.00 eur or Usd'') = Some f \<and>
        currency f = Some (js ''EUR'')) \<and>
   (\<exists>f. extractStructuredFields (js ''neuro 5,00'') = Some f \<and> currency f = Some (js ''NOK''))"
proof -
  have a: "firstCode None (js ''50.00 eur or Usd'') = Some (js ''EUR'')"
    by (simp add: currency_eval string_eval)
  have b: "firstCode None (js ''neuro 5,00'') = None"
    by (simp add: currency_eval string_eval)
  from currency_is_first_code [of "js ''50.00 eur or Usd''"] a
  have "\<exists>f. extractStructuredFields (js ''50.00 eur or Usd'') = Some f \<and>
        currency f = Some (js ''EUR'')" by auto
  moreover from currency_is_first_code [of "js ''neuro 5,00''"] b
  have "\<exists>f. extractStructuredFields (js ''neuro 5,00'') = Some f \<and>
        currency f = Some (js ''NOK'')" by auto
  ultimately show ?thesis by blast
qed

section \<open>The merchant\<close>

lemma extract_merchant:
  "map_option merchant (extractStructuredFields text) = Some (detectMerchant text)"
  by (simp add: extractStructuredFields_def detectTotal_spec)

lemma reach_word: "reach r st st' \<Longrightarrow> \<exists>w. matchesWord r w \<and> rest st = w @ rest st'"
proof (induction rule: reach.induct)
  case (reach_Atom st c cs P)
  then show ?case by (auto intro: mw_Atom)
next
  case (reach_Seq a st st1 b st2)
  then obtain u v where "matchesWord a u" "rest st = u @ rest st1"
    "matchesWord b v" "rest st1 = v @ rest st2" by blast
  then have "matchesWord (Seq a b) (u @ v)" "rest st = (u @ v) @ rest st2"
    by (auto intro: mw_Seq)
  then show ?case by blast
next
  case (reach_StarS a st st1 st2)
  then obtain u v where "matchesWord a u" "rest st = u @ rest st1"
    "matchesWord (Star a) v" "rest st1 = v @ rest st2" by blast
  then have "matchesWord (Star a) (u @ v)" "rest st = (u @ v) @ rest st2"
    by (auto intro: mw_StarS)
  then show ?case by blast
qed (auto intro: matchesWord.intros)

lemma matchHere_word: "matchHere r p s = Some mt \<Longrightarrow> matchesWord r (matched mt)"
proof -
  assume a: "matchHere r p s = Some mt"
  from matchHere_reach [OF a] obtain w where
    w: "matchesWord r w" "s = w @ rest (endState mt)"
    and m: "matched mt = take (length s - length (rest (endState mt))) s"
    by (auto dest: reach_word)
  from w(2) have "take (length s - length (rest (endState mt))) s = w"
    by (metis add_diff_cancel_right' append_eq_conv_conj length_append)
  with w(1) m show ?thesis by simp
qed

lemma searchFrom_word: "searchFrom r p s = Some mt \<Longrightarrow> matchesWord r (matched mt)"
proof (induction s arbitrary: p)
  case Nil
  then show ?case by (auto dest: matchHere_word)
next
  case (Cons c cs)
  then show ?case by (cases "matchHere r p (c # cs)") (auto dest: matchHere_word)
qed

lemma match_js_word: "match_js text r = Some mt \<Longrightarrow> matchesWord r (matched mt)"
  unfolding match_js_def by (rule searchFrom_word)

inductive_cases mw_SeqE: "matchesWord (Seq a b) w"
inductive_cases mw_AtomE: "matchesWord (Atom P) w"
inductive_cases mw_EpsE: "matchesWord Eps w"

lemma seqs_Cons: "rs \<noteq> [] \<Longrightarrow> seqs (r # rs) = Seq r (seqs rs)"
  by (cases rs) simp_all

lemma word_seqs_Cons:
  "matchesWord (seqs (r # rs)) w \<Longrightarrow> \<exists>u v. w = u @ v \<and> matchesWord r u \<and> matchesWord (seqs rs) v"
proof (cases rs)
  case Nil
  assume "matchesWord (seqs (r # rs)) w"
  with Nil have "matchesWord r w" "matchesWord (seqs rs) []" by (auto intro: mw_Eps)
  then show ?thesis by (intro exI [of _ w] exI [of _ "[]"]) simp
next
  case (Cons r' rs')
  assume "matchesWord (seqs (r # rs)) w"
  with Cons have "matchesWord (Seq r (seqs rs)) w" by simp
  then show ?thesis by (elim mw_SeqE) blast
qed

lemma word_strI_length: "matchesWord (strI s) w \<Longrightarrow> length w = length s"
proof (induction s arbitrary: w)
  case Nil
  then show ?case by (auto simp: strI_def elim: mw_EpsE)
next
  case (Cons c cs)
  from Cons.prems have "matchesWord (seqs (chrI c # map chrI cs)) w" by (simp add: strI_def)
  from word_seqs_Cons [OF this] obtain u v where
    w: "w = u @ v" "matchesWord (chrI c) u" "matchesWord (strI cs) v" by (auto simp: strI_def)
  from w(2) have "length u = 1" by (auto simp: chrI_def elim: mw_AtomE)
  with Cons.IH [OF w(3)] w(1) show ?case by simp
qed

lemma word_star_space: "matchesWord r w \<Longrightarrow> r = Star space \<Longrightarrow> list_all isWhiteSpace w"
proof (induction rule: matchesWord.induct)
  case (mw_StarS a u v)
  then have "matchesWord (Atom isWhiteSpace) u" by (simp add: space_def)
  then have "list_all isWhiteSpace u" by (auto elim: mw_AtomE)
  with mw_StarS show ?case by simp
qed (simp_all add: space_def)

lemma length_collapse_le: "length (collapseWhiteSpace s) \<le> length s"
proof (induction s rule: collapseWhiteSpace.induct)
  case 1
  then show ?case by simp
next
  case (2 c cs)
  have "length (dropWhile isWhiteSpace cs) \<le> length cs" by (rule length_dropWhile_le)
  with 2 show ?case by auto
qed

lemma collapse_dropWhile_le:
  "length (collapseWhiteSpace (dropWhile isWhiteSpace v)) \<le> length (collapseWhiteSpace v)"
  by (cases v) auto

lemma collapse_all_space: "list_all isWhiteSpace w \<Longrightarrow> length (collapseWhiteSpace w) \<le> 1"
proof (cases w)
  case Nil
  then show ?thesis by simp
next
  case (Cons c cs)
  assume "list_all isWhiteSpace w"
  with Cons have c: "isWhiteSpace c" and "\<forall>x \<in> set cs. isWhiteSpace x"
    by (auto simp: list_all_iff)
  then have d: "dropWhile isWhiteSpace cs = []" by simp
  from c Cons have "collapseWhiteSpace w = SPACE # collapseWhiteSpace (dropWhile isWhiteSpace cs)"
    by simp
  then show ?thesis unfolding d by simp
qed

lemma collapse_append_le:
  "length (collapseWhiteSpace (u @ v)) \<le>
   length (collapseWhiteSpace u) + length (collapseWhiteSpace v)"
proof (induction u rule: collapseWhiteSpace.induct)
  case 1
  then show ?case by simp
next
  case (2 c cs)
  show ?case
  proof (cases "isWhiteSpace c")
    case False
    with 2 show ?thesis by simp
  next
    case True
    show ?thesis
    proof (cases "\<forall>x \<in> set cs. isWhiteSpace x")
      case all: True
      then have "dropWhile isWhiteSpace (cs @ v) = dropWhile isWhiteSpace v"
        by (simp add: dropWhile_append)
      with True collapse_dropWhile_le [of v] show ?thesis by simp
    next
      case False
      then have "dropWhile isWhiteSpace (cs @ v) = dropWhile isWhiteSpace cs @ v"
        by (auto simp: dropWhile_append)
      with True "2.IH"(1) show ?thesis by simp
    qed
  qed
qed

lemma length_trim_le: "length (trim s) \<le> length s"
proof -
  have "length (dropWhile isWhiteSpace (rev (dropWhile isWhiteSpace s))) \<le>
        length (rev (dropWhile isWhiteSpace s))" by (rule length_dropWhile_le)
  also have "\<dots> \<le> length s" by (simp add: length_dropWhile_le)
  finally show ?thesis by (simp add: trim_def)
qed

lemma word_store_plain:
  "matchesWord (strI s) w \<Longrightarrow> length (collapseWhiteSpace w) \<le> length s"
  using length_collapse_le [of w] by (auto dest: word_strI_length)

lemma word_store_spaced:
  assumes "matchesWord (seqs [strI A, Star space, strI B]) w"
  shows "length (collapseWhiteSpace w) \<le> length A + 1 + length B"
proof -
  from word_seqs_Cons [OF assms] obtain a v where
    w: "w = a @ v" "matchesWord (strI A) a" "matchesWord (seqs [Star space, strI B]) v" by blast
  from word_seqs_Cons [OF w(3)] obtain sp b where
    v: "v = sp @ b" "matchesWord (Star space) sp" "matchesWord (strI B) b" by auto
  have "length (collapseWhiteSpace w) \<le>
        length (collapseWhiteSpace a) + (length (collapseWhiteSpace sp) + length (collapseWhiteSpace b))"
    unfolding w(1) v(1)
    using collapse_append_le [of a "sp @ b"] collapse_append_le [of sp b] by linarith
  moreover have "length (collapseWhiteSpace a) \<le> length A" using w(2) by (rule word_store_plain)
  moreover have "length (collapseWhiteSpace b) \<le> length B" using v(3) by (rule word_store_plain)
  moreover have "length (collapseWhiteSpace sp) \<le> 1"
    using word_star_space [OF v(2)] collapse_all_space [of sp] by simp
  ultimately show ?thesis by linarith
qed

lemma storePatterns_words:
  assumes "pattern \<in> set storePatterns" and "matchesWord pattern w"
  shows "length (collapseWhiteSpace w) \<le> 60"
proof -
  from assms(1) consider
    (plain) s where "pattern = strI s" "length s \<le> 60"
  | (spaced) A B where "pattern = seqs [strI A, Star space, strI B]" "length A + 1 + length B \<le> 60"
    unfolding storePatterns_def by (auto simp: js_def)
  then show ?thesis
  proof cases
    case plain
    with assms(2) word_store_plain [of s w] show ?thesis by simp
  next
    case spaced
    with assms(2) word_store_spaced [of A B w] show ?thesis by simp
  qed
qed

lemma storeLoop_bound:
  assumes "\<forall>pattern \<in> set ps. \<forall>w. matchesWord pattern w \<longrightarrow> length (collapseWhiteSpace w) \<le> 60"
    and "storeLoop ps text = Some found"
  shows "length found \<le> 60"
  using assms
proof (induction ps)
  case Nil
  then show ?case by simp
next
  case (Cons pattern ps)
  show ?case
  proof (cases "match_js text pattern")
    case None
    with Cons show ?thesis by simp
  next
    case (Some mt)
    from match_js_word [OF Some] Cons.prems(1)
    have "length (collapseWhiteSpace (matched mt)) \<le> 60" by simp
    with length_trim_le [of "collapseWhiteSpace (matched mt)"]
    have a: "length (trim (collapseWhiteSpace (matched mt))) \<le> 60" by linarith
    have b: "length (matched am) \<le> 60"
      if "match_js text (strI (js ''ANTONSPORT'')) = Some am" for am
      using word_strI_length [OF match_js_word [OF that]] by (simp add: js_def)
    from Cons.prems(2) Some a b show ?thesis
      by (auto simp: Let_def split: if_splits option.splits)
  qed
qed

lemma orgLoop_bound:
  assumes "\<forall>m0. merchant0 = Some m0 \<longrightarrow> length m0 \<le> 60"
    and "orgLoop ls i orgIdx merchant0 = Some found"
  shows "length found \<le> 60"
  using assms
proof (induction ls i orgIdx merchant0 rule: orgLoop.induct)
  case (1 ls i orgIdx merchant0)
  show ?case
  proof (cases "i < orgIdx")
    case False
    with "1.prems" show ?thesis by (simp add: orgLoop.simps)
  next
    case True
    show ?thesis
    proof (cases "lineAt ls i")
      case None
      with True "1.prems" "1.IH"(1) show ?thesis by (simp add: orgLoop.simps [of ls i])
    next
      case (Some line)
      show ?thesis
      proof (cases "looksLikeName line")
        case False
        with True Some "1.prems" "1.IH"(2) show ?thesis by (simp add: orgLoop.simps [of ls i])
      next
        case name: True
        with True Some "1.prems" have "found = trim (slice60 line)"
          by (simp add: orgLoop.simps [of ls i])
        with length_trim_le [of "slice60 line"] show ?thesis by (simp add: slice60_def)
      qed
    qed
  qed
qed

lemma detectMerchant_bound: "detectMerchant text = Some found \<Longrightarrow> length found \<le> 60"
proof -
  assume a: "detectMerchant text = Some found"
  define merchant0 where
    "merchant0 = (case textLines text of [] \<Rightarrow> None | l # _ \<Rightarrow> Some (slice60 l))"
  have m0: "\<forall>m0. merchant0 = Some m0 \<longrightarrow> length m0 \<le> 60"
    by (auto simp: merchant0_def slice60_def split: list.splits)
  show ?thesis
  proof (cases "storeLoop storePatterns text")
    case (Some f)
    with a have "found = f" by (simp add: detectMerchant_def Let_def)
    with storeLoop_bound [OF _ Some] storePatterns_words show ?thesis by blast
  next
    case None
    with a have o: "orgMerchant (textLines text) merchant0 = Some found"
      by (simp add: detectMerchant_def Let_def merchant0_def)
    show ?thesis
    proof (cases "0 \<le> findIndex (textLines text) (test_js orgPattern)")
      case True
      with o orgLoop_bound [OF m0] show ?thesis by (auto simp: orgMerchant_def Let_def)
    next
      case False
      with o m0 show ?thesis by (simp add: orgMerchant_def Let_def)
    qed
  qed
qed

text \<open>
  C9.  The function returns for every text, and a merchant that is present has at most 60
  characters.  So has the result of each route: the known-store match (with its white
  space collapsed, or the ANTONSPORT match), the line above the organisation number
  (sliced and trimmed), and the first line (sliced).
\<close>

theorem merchant_at_most_60:
  "(\<exists>f. extractStructuredFields text = Some f \<and>
        (\<forall>found. merchant f = Some found \<longrightarrow> length found \<le> 60)) \<and>
   (\<forall>found. storeLoop storePatterns text = Some found \<longrightarrow> length found \<le> 60) \<and>
   (\<forall>line. length (trim (slice60 line)) \<le> 60 \<and> length (slice60 line) \<le> 60)"
proof (intro conjI allI impI)
  from extract_merchant [of "text"] obtain f where
    f: "extractStructuredFields text = Some f" "merchant f = detectMerchant text" by auto
  with detectMerchant_bound [of "text"]
  show "\<exists>f. extractStructuredFields text = Some f \<and>
        (\<forall>found. merchant f = Some found \<longrightarrow> length found \<le> 60)" by auto
next
  fix found
  assume "storeLoop storePatterns text = Some found"
  from storeLoop_bound [OF _ this] storePatterns_words show "length found \<le> 60" by blast
next
  fix line
  show "length (trim (slice60 line)) \<le> 60"
    using length_trim_le [of "slice60 line"] by (simp add: slice60_def)
  show "length (slice60 line) \<le> 60" by (simp add: slice60_def)
qed

lemmas merchant_eval = detectMerchant_def textLines_def slice60_def storePatterns_def
  orgMerchant_def orgPattern_def addressPattern_def phonePattern_def namePattern_def
  isNameLetter_def looksLikeName_def findIndex_def lineAt_def orgLoop.simps LF_def CR_def

theorem merchant_at_most_60_witness:
  "(\<exists>f. extractStructuredFields (js ''coop   prix 1'') = Some f \<and>
        merchant f = Some (js ''coop prix'') \<and> length (js ''coop prix'') \<le> 60) \<and>
   (\<exists>f. extractStructuredFields (js ''Bakeri AS'' @ [LF] @ js ''Org.nr 1'') = Some f \<and>
        merchant f = Some (js ''Bakeri AS'')) \<and>
   (\<exists>f. extractStructuredFields
          (js ''xxxxxxxxxxxxxxxxxxxxxxxxxxxxxxxxxxxxxxxxxxxxxxxxxxxxxxxxxxxxyz'') = Some f \<and>
        merchant f = Some (js ''xxxxxxxxxxxxxxxxxxxxxxxxxxxxxxxxxxxxxxxxxxxxxxxxxxxxxxxxxxxx''))"
proof -
  have a: "detectMerchant (js ''coop   prix 1'') = Some (js ''coop prix'')"
    by (simp add: merchant_eval regex_eval string_eval)
  have b: "detectMerchant (js ''Bakeri AS'' @ [LF] @ js ''Org.nr 1'') = Some (js ''Bakeri AS'')"
    by (simp add: merchant_eval regex_eval string_eval)
  have c: "detectMerchant (js ''xxxxxxxxxxxxxxxxxxxxxxxxxxxxxxxxxxxxxxxxxxxxxxxxxxxxxxxxxxxxyz'') =
        Some (js ''xxxxxxxxxxxxxxxxxxxxxxxxxxxxxxxxxxxxxxxxxxxxxxxxxxxxxxxxxxxx'')"
    by (simp add: merchant_eval regex_eval string_eval)
  from merchant_at_most_60 [of "js ''coop   prix 1''"] a extract_merchant [of "js ''coop   prix 1''"]
  have "\<exists>f. extractStructuredFields (js ''coop   prix 1'') = Some f \<and>
        merchant f = Some (js ''coop prix'') \<and> length (js ''coop prix'') \<le> 60"
    by auto
  moreover from b extract_merchant [of "js ''Bakeri AS'' @ [LF] @ js ''Org.nr 1''"]
  have "\<exists>f. extractStructuredFields (js ''Bakeri AS'' @ [LF] @ js ''Org.nr 1'') = Some f \<and>
        merchant f = Some (js ''Bakeri AS'')" by auto
  moreover from c
    extract_merchant [of "js ''xxxxxxxxxxxxxxxxxxxxxxxxxxxxxxxxxxxxxxxxxxxxxxxxxxxxxxxxxxxxyz''"]
  have "\<exists>f. extractStructuredFields
          (js ''xxxxxxxxxxxxxxxxxxxxxxxxxxxxxxxxxxxxxxxxxxxxxxxxxxxxxxxxxxxxyz'') = Some f \<and>
        merchant f = Some (js ''xxxxxxxxxxxxxxxxxxxxxxxxxxxxxxxxxxxxxxxxxxxxxxxxxxxxxxxxxxxx'')"
    by auto
  ultimately show ?thesis by blast
qed

section \<open>Repeated separators\<close>

lemmas claimed_eval = claimedOneSeparator_def claimedBothSeparators_def decimalAtLast_def
  afterLast_def beforeLast_def digitsOnly_def definedNumber_def

text \<open>
  C2.  The token \<open>"1,234,56"\<close> has commas and no dot, and exactly two digits after its
  last comma.  The rule of the claim makes the last comma the decimal point: 1234.56.
  The function replaces the first comma and strips the second: 1.23456.  The token
  \<open>"1.234.56"\<close> has dots only and two digits after the last one; the function keeps every
  dot, and \<open>parseFloat\<close> stops at the second: 1.234, where the claim has 1234.56.
\<close>

theorem repeated_separator_one_kind:
  "trim (js ''1,234,56'') = js ''1,234,56'' \<and> afterLast COMMA (js ''1,234,56'') = js ''56'' \<and>
   parseNorwegianCurrency (js ''1,234,56'') = Some (numberValue (123456 / 100000)) \<and>
   claimedOneSeparator COMMA (js ''1,234,56'') = Some (numberValue (123456 / 100)) \<and>
   trim (js ''1.234.56'') = js ''1.234.56'' \<and> afterLast DOT (js ''1.234.56'') = js ''56'' \<and>
   parseNorwegianCurrency (js ''1.234.56'') = Some (numberValue (1234 / 1000)) \<and>
   claimedOneSeparator DOT (js ''1.234.56'') = Some (numberValue (123456 / 100)) \<and>
   numberValue (123456 / 100000) = Num (694995494495815 / 562949953421312) \<and>
   numberValue (1234 / 1000) = Num (694680242521899 / 562949953421312) \<and>
   numberValue (123456 / 100) = Num (2714826150374277 / 2199023255552)"
proof -
  have "trim (js ''1,234,56'') = js ''1,234,56'' \<and> afterLast COMMA (js ''1,234,56'') = js ''56''"
    by (simp add: claimed_eval string_eval)
  moreover have "parseNorwegianCurrency (js ''1,234,56'') = Some (numberValue (123456 / 100000))"
    by (simp add: string_eval parse_eval)
  moreover have "claimedOneSeparator COMMA (js ''1,234,56'') = Some (numberValue (123456 / 100))"
    by (simp add: claimed_eval string_eval parse_eval)
  moreover have "trim (js ''1.234.56'') = js ''1.234.56'' \<and> afterLast DOT (js ''1.234.56'') = js ''56''"
    by (simp add: claimed_eval string_eval)
  moreover have "parseNorwegianCurrency (js ''1.234.56'') = Some (numberValue (1234 / 1000))"
    by (simp add: string_eval parse_eval)
  moreover have "claimedOneSeparator DOT (js ''1.234.56'') = Some (numberValue (123456 / 100))"
    by (simp add: claimed_eval string_eval parse_eval)
  moreover have "numberValue (123456 / 100000) = Num (694995494495815 / 562949953421312)"
    by (simp add: number_eval)
  moreover have "numberValue (1234 / 1000) = Num (694680242521899 / 562949953421312)"
    by (simp add: number_eval)
  moreover have "numberValue (123456 / 100) = Num (2714826150374277 / 2199023255552)"
    by (simp add: number_eval)
  ultimately show ?thesis by blast
qed

text \<open>
  C3.  The token \<open>"1.234,567,89"\<close> has both separators and its last comma comes after its
  last dot.  With the comma as the decimal point and the dots removed the value is
  1234567.89; the function replaces the first comma and strips the second: 1234.56789.
  In \<open>"1,234.567.89"\<close> the dot comes later; the function removes the commas and keeps both
  dots, and \<open>parseFloat\<close> stops at the second: 1234.567, where the claim has 1234567.89.
\<close>

theorem repeated_separator_both_kinds:
  "parseNorwegianCurrency (js ''1.234,567,89'') = Some (numberValue (123456789 / 100000)) \<and>
   claimedBothSeparators (js ''1.234,567,89'') = Some (numberValue (123456789 / 100)) \<and>
   parseNorwegianCurrency (js ''1,234.567.89'') = Some (numberValue (1234567 / 1000)) \<and>
   claimedBothSeparators (js ''1,234.567.89'') = Some (numberValue (123456789 / 100)) \<and>
   numberValue (123456789 / 100000) = Num (5429687001335527 / 4398046511104) \<and>
   numberValue (1234567 / 1000) = Num (1357420771768533 / 1099511627776) \<and>
   numberValue (123456789 / 100) = Num (5302428712241725 / 4294967296)"
proof -
  have "parseNorwegianCurrency (js ''1.234,567,89'') = Some (numberValue (123456789 / 100000))"
    by (simp add: string_eval parse_eval)
  moreover have "claimedBothSeparators (js ''1.234,567,89'') = Some (numberValue (123456789 / 100))"
    by (simp add: claimed_eval string_eval parse_eval)
  moreover have "parseNorwegianCurrency (js ''1,234.567.89'') = Some (numberValue (1234567 / 1000))"
    by (simp add: string_eval parse_eval)
  moreover have "claimedBothSeparators (js ''1,234.567.89'') = Some (numberValue (123456789 / 100))"
    by (simp add: claimed_eval string_eval parse_eval)
  moreover have "numberValue (123456789 / 100000) = Num (5429687001335527 / 4398046511104)"
    by (simp add: number_eval)
  moreover have "numberValue (1234567 / 1000) = Num (1357420771768533 / 1099511627776)"
    by (simp add: number_eval)
  moreover have "numberValue (123456789 / 100) = Num (5302428712241725 / 4294967296)"
    by (simp add: number_eval)
  ultimately show ?thesis by blast
qed

subsection \<open>Where the function follows the rules: a decimal separator that occurs once\<close>

lemma lastIndexFrom_append:
  "lastIndexFrom c (a @ b) i found = lastIndexFrom c b (i + length a) (lastIndexFrom c a i found)"
  by (induction a arbitrary: i found) simp_all

lemma lastIndexFrom_notin: "c \<notin> set s \<Longrightarrow> lastIndexFrom c s i found = found"
  by (induction s arbitrary: i) simp_all

lemma lastIndexOf_last: "c \<notin> set b \<Longrightarrow> lastIndexOf (a @ c # b) c = int (length a)"
  by (simp add: lastIndexOf_def lastIndexFrom_append lastIndexFrom_notin)

lemma afterLast_last:
  assumes "c \<notin> set b"
  shows "afterLast c (a @ c # b) = b"
proof -
  have "takeWhile (\<lambda>x. x \<noteq> c) (rev b @ c # rev a) = rev b @ takeWhile (\<lambda>x. x \<noteq> c) (c # rev a)"
    by (rule takeWhile_append2) (use assms in auto)
  then show ?thesis by (simp add: afterLast_def)
qed

lemma beforeLast_last:
  assumes "c \<notin> set b"
  shows "beforeLast c (a @ c # b) = a"
proof -
  have "dropWhile (\<lambda>x. x \<noteq> c) (rev b @ c # rev a) = dropWhile (\<lambda>x. x \<noteq> c) (c # rev a)"
    by (rule dropWhile_append2) (use assms in auto)
  then show ?thesis by (simp add: beforeLast_def)
qed

lemma substringFrom_last: "substringFrom (a @ c # b) (int (length a) + 1) = b"
  by (simp add: substringFrom_def nat_add_distrib)

lemma lastIndexOf_before:
  assumes "lastIndexOf s c < int n"
  shows "c \<notin> set (drop n s)"
proof
  assume "c \<in> set (drop n s)"
  then obtain u v where uv: "drop n s = u @ c # v" "c \<notin> set v"
    by (auto dest: split_list_last)
  then have len: "n \<le> length s" by (cases "n \<le> length s") auto
  have "s = (take n s @ u) @ c # v" using uv(1) by (metis append_assoc append_take_drop_id)
  then have "lastIndexOf s c = int (length (take n s @ u))"
    using lastIndexOf_last [OF uv(2), of "take n s @ u"] by simp
  with assms len show False by simp
qed

lemma separators_not_digits: "\<not> isDigit COMMA" "\<not> isDigit DOT"
  by (simp_all add: isDigit_def COMMA_def DOT_def)

lemma strip_digits:
  "DOT \<notin> set s \<Longrightarrow> stripNonNumeric s = digitsOnly s"
  by (induction s) (auto simp: stripNonNumeric_def digitsOnly_def)

lemma strip_append: "stripNonNumeric (a @ b) = stripNonNumeric a @ stripNonNumeric b"
  by (simp add: stripNonNumeric_def)

lemma strip_all_digits: "list_all isDigit s \<Longrightarrow> stripNonNumeric s = s"
  by (induction s) (auto simp: stripNonNumeric_def)

lemma digitsOnly_all_digits: "list_all isDigit s \<Longrightarrow> digitsOnly s = s"
  by (induction s) (auto simp: digitsOnly_def)

lemma strip_dot: "stripNonNumeric (DOT # s) = DOT # stripNonNumeric s"
  by (simp add: stripNonNumeric_def)

lemma digitsOnly_removeAll:
  "\<not> isDigit c \<Longrightarrow> digitsOnly (removeAll_js c s) = digitsOnly s"
  by (induction s) (auto simp: digitsOnly_def removeAll_js_def)

lemma strip_removeAll_dot: "stripNonNumeric (removeAll_js DOT s) = digitsOnly s"
  using separators_not_digits
  by (induction s) (auto simp: stripNonNumeric_def digitsOnly_def removeAll_js_def)

lemma replaceFirst_first:
  "c \<notin> set a \<Longrightarrow> replaceFirst c d (a @ c # b) = a @ d # b"
  by (induction a) auto

lemma parse_unfold:
  "trim t \<noteq> [] \<Longrightarrow>
   parseNorwegianCurrency t =
     definedNumber (parseFloat (stripNonNumeric (resolveSeparators (trim t))))"
  by (auto simp: parseNorwegianCurrency_def definedNumber_def Let_def trim_def)

lemma count_one_split:
  assumes "count_list (a @ c # b) c = 1"
  shows "c \<notin> set a"
  using assms by (simp add: count_list_0_iff [symmetric])

text \<open>
  Commas and no dot: the function follows the rule for one kind of separator when the
  comma occurs once, and when the characters after the last comma are not exactly two
  digits.
\<close>

lemma comma_only_agrees:
  assumes "COMMA \<in> set (trim t)" and "DOT \<notin> set (trim t)"
    and "count_list (trim t) COMMA = 1 \<or>
         \<not> (length (afterLast COMMA (trim t)) = 2 \<and> list_all isDigit (afterLast COMMA (trim t)))"
  shows "parseNorwegianCurrency t = claimedOneSeparator COMMA (trim t)"
proof -
  from assms(1) obtain a b where cl: "trim t = a @ COMMA # b" "COMMA \<notin> set b"
    by (auto dest: split_list_last)
  then have ne: "trim t \<noteq> []" by simp
  from cl assms(2) have nodot: "DOT \<notin> set a" "DOT \<notin> set b" by auto
  have after: "afterLast COMMA (trim t) = b" and before: "beforeLast COMMA (trim t) = a"
    and sub: "substringFrom (trim t) (lastIndexOf (trim t) COMMA + 1) = b"
    using cl by (simp_all add: afterLast_last beforeLast_last lastIndexOf_last substringFrom_last)
  show ?thesis
  proof (cases "length b = 2 \<and> list_all isDigit b")
    case True
    with assms(3) after have "count_list (a @ COMMA # b) COMMA = 1" by (simp add: cl(1))
    then have "COMMA \<notin> set a" by (rule count_one_split)
    then have "replaceFirst COMMA DOT (trim t) = a @ DOT # b"
      using cl(1) by (simp add: replaceFirst_first)
    with True assms(1,2) sub have "resolveSeparators (trim t) = a @ DOT # b"
      by (simp add: resolveSeparators_def includes_js_def Let_def)
    then have "stripNonNumeric (resolveSeparators (trim t)) = digitsOnly a @ DOT # b"
      using True nodot(1) by (simp add: strip_append strip_dot strip_digits strip_all_digits)
    with True after before ne show ?thesis
      by (simp add: parse_unfold claimedOneSeparator_def Let_def)
  next
    case False
    with assms(1,2) sub have "resolveSeparators (trim t) = removeAll_js COMMA (trim t)"
      by (auto simp: resolveSeparators_def includes_js_def Let_def)
    moreover from assms(2) have "DOT \<notin> set (removeAll_js COMMA (trim t))"
      by (simp add: removeAll_js_def)
    ultimately have "stripNonNumeric (resolveSeparators (trim t)) = digitsOnly (trim t)"
      by (simp add: strip_digits digitsOnly_removeAll separators_not_digits)
    with False after ne show ?thesis
      by (auto simp: parse_unfold claimedOneSeparator_def Let_def)
  qed
qed

text \<open>Dots and no comma, likewise.\<close>

lemma dot_only_agrees:
  assumes "DOT \<in> set (trim t)" and "COMMA \<notin> set (trim t)"
    and "count_list (trim t) DOT = 1 \<or>
         \<not> (length (afterLast DOT (trim t)) = 2 \<and> list_all isDigit (afterLast DOT (trim t)))"
  shows "parseNorwegianCurrency t = claimedOneSeparator DOT (trim t)"
proof -
  from assms(1) obtain a b where cl: "trim t = a @ DOT # b" "DOT \<notin> set b"
    by (auto dest: split_list_last)
  then have ne: "trim t \<noteq> []" by simp
  have after: "afterLast DOT (trim t) = b" and before: "beforeLast DOT (trim t) = a"
    and sub: "substringFrom (trim t) (lastIndexOf (trim t) DOT + 1) = b"
    using cl by (simp_all add: afterLast_last beforeLast_last lastIndexOf_last substringFrom_last)
  show ?thesis
  proof (cases "length b = 2 \<and> list_all isDigit b")
    case True
    with assms(3) after have "count_list (a @ DOT # b) DOT = 1" by (simp add: cl(1))
    then have nodot: "DOT \<notin> set a" by (rule count_one_split)
    from True assms(1,2) sub have "resolveSeparators (trim t) = a @ DOT # b"
      by (simp add: resolveSeparators_def includes_js_def Let_def cl(1) [symmetric])
    then have "stripNonNumeric (resolveSeparators (trim t)) = digitsOnly a @ DOT # b"
      using True nodot by (simp add: strip_append strip_dot strip_digits strip_all_digits)
    with True after before ne show ?thesis
      by (simp add: parse_unfold claimedOneSeparator_def Let_def)
  next
    case False
    with assms(1,2) sub have "resolveSeparators (trim t) = removeAll_js DOT (trim t)"
      by (auto simp: resolveSeparators_def includes_js_def Let_def)
    then have "stripNonNumeric (resolveSeparators (trim t)) = digitsOnly (trim t)"
      by (simp add: strip_removeAll_dot)
    with False after ne show ?thesis
      by (auto simp: parse_unfold claimedOneSeparator_def Let_def)
  qed
qed

lemma removeAll_append: "removeAll_js c (a @ b) = removeAll_js c a @ removeAll_js c b"
  by (simp add: removeAll_js_def)

lemma removeAll_notin: "c \<notin> set s \<Longrightarrow> removeAll_js c s = s"
  by (induction s) (auto simp: removeAll_js_def)

lemma removeAll_Cons:
  "removeAll_js c (x # s) = (if x = c then removeAll_js c s else x # removeAll_js c s)"
  by (simp add: removeAll_js_def)

lemma removeAll_set: "set (removeAll_js c s) = set s - {c}"
  by (auto simp: removeAll_js_def)

lemma comma_is_not_dot: "COMMA \<noteq> DOT"
  by (simp add: COMMA_def DOT_def)

text \<open>
  Both separators: the function follows the rule for both separators when the one whose
  last occurrence comes later occurs once.
\<close>

lemma both_separators_agree:
  assumes "COMMA \<in> set (trim t)" and "DOT \<in> set (trim t)"
    and "if lastIndexOf (trim t) DOT < lastIndexOf (trim t) COMMA
         then count_list (trim t) COMMA = 1 else count_list (trim t) DOT = 1"
  shows "parseNorwegianCurrency t = claimedBothSeparators (trim t)"
proof (cases "lastIndexOf (trim t) DOT < lastIndexOf (trim t) COMMA")
  case True
  from assms(1) obtain a b where cl: "trim t = a @ COMMA # b" "COMMA \<notin> set b"
    by (auto dest: split_list_last)
  then have ne: "trim t \<noteq> []" by simp
  have last: "lastIndexOf (trim t) COMMA = int (length a)"
    using cl by (simp add: lastIndexOf_last)
  from True assms(3) have "count_list (a @ COMMA # b) COMMA = 1" by (simp add: cl(1))
  then have nocomma: "COMMA \<notin> set a" by (rule count_one_split)
  from True last have "DOT \<notin> set (drop (length a) (trim t))"
    by (intro lastIndexOf_before) simp
  then have nodot: "DOT \<notin> set b" by (simp add: cl(1))
  have "removeAll_js DOT (trim t) = removeAll_js DOT a @ COMMA # b"
    using nodot comma_is_not_dot
    by (simp add: cl(1) removeAll_append removeAll_Cons removeAll_notin)
  moreover have "COMMA \<notin> set (removeAll_js DOT a)" using nocomma by (simp add: removeAll_set)
  ultimately have "replaceFirst COMMA DOT (removeAll_js DOT (trim t)) = removeAll_js DOT a @ DOT # b"
    by (simp add: replaceFirst_first)
  with True assms(1,2) have "resolveSeparators (trim t) = removeAll_js DOT a @ DOT # b"
    by (simp add: resolveSeparators_def includes_js_def Let_def)
  then have "stripNonNumeric (resolveSeparators (trim t)) = digitsOnly a @ DOT # digitsOnly b"
    using nodot by (simp add: strip_append strip_dot strip_removeAll_dot strip_digits)
  with True cl ne show ?thesis
    by (simp add: parse_unfold claimedBothSeparators_def decimalAtLast_def afterLast_last
        beforeLast_last)
next
  case False
  from assms(2) obtain a b where cl: "trim t = a @ DOT # b" "DOT \<notin> set b"
    by (auto dest: split_list_last)
  then have ne: "trim t \<noteq> []" by simp
  have last: "lastIndexOf (trim t) DOT = int (length a)"
    using cl by (simp add: lastIndexOf_last)
  from False assms(3) have "count_list (a @ DOT # b) DOT = 1" by (simp add: cl(1))
  then have nodot: "DOT \<notin> set a" by (rule count_one_split)
  from False last have "COMMA \<notin> set (drop (length a + 1) (trim t))"
    by (intro lastIndexOf_before) simp
  then have nocomma: "COMMA \<notin> set b" by (simp add: cl(1))
  have "removeAll_js COMMA (trim t) = removeAll_js COMMA a @ DOT # b"
    using nocomma comma_is_not_dot
    by (simp add: cl(1) removeAll_append removeAll_Cons removeAll_notin)
  with False assms(1,2) have "resolveSeparators (trim t) = removeAll_js COMMA a @ DOT # b"
    by (simp add: resolveSeparators_def includes_js_def Let_def)
  moreover have "DOT \<notin> set (removeAll_js COMMA a)" using nodot by (simp add: removeAll_set)
  ultimately have "stripNonNumeric (resolveSeparators (trim t)) = digitsOnly a @ DOT # digitsOnly b"
    using cl(2)
    by (simp add: strip_append strip_dot strip_digits digitsOnly_removeAll separators_not_digits)
  with False cl ne show ?thesis
    by (simp add: parse_unfold claimedBothSeparators_def decimalAtLast_def afterLast_last
        beforeLast_last)
qed

end
